theory Spec2Isabelle
  imports Main
begin

section \<open>The sample CSV generator \<^verbatim>\<open>generate_csvs.py\<close>\<close>

text \<open>
  The script builds two fixed name tables, draws random pairs of names, numbers the
  rows with zero-padded ticket numbers and writes five CSV files. The model below
  follows the script function by function. Python integers are \<^typ>\<open>int\<close>,
  strings are \<^typ>\<open>string\<close>, the random generator and the directory of the script
  are explicit state, and an exception is a value \<open>Inl e\<close> of a sum type.
\<close>

subsection \<open>The name tables\<close>

definition first_names :: "string list" where
  "first_names =
    [''James'', ''Mary'', ''Robert'', ''Patricia'', ''John'', ''Jennifer'', ''Michael'', ''Linda'',
     ''David'', ''Elizabeth'', ''William'', ''Barbara'', ''Richard'', ''Susan'', ''Joseph'', ''Jessica'',
     ''Thomas'', ''Sarah'', ''Christopher'', ''Karen'', ''Charles'', ''Lisa'', ''Daniel'', ''Nancy'',
     ''Matthew'', ''Betty'', ''Anthony'', ''Helen'', ''Mark'', ''Sandra'', ''Donald'', ''Donna'',
     ''Steven'', ''Carol'', ''Kenneth'', ''Ruth'', ''Andrew'', ''Sharon'', ''Joshua'', ''Michelle'',
     ''Kevin'', ''Laura'', ''Brian'', ''Emily'', ''George'', ''Kimberly'', ''Timothy'', ''Deborah'',
     ''Ronald'', ''Dorothy'', ''Edward'', ''Amy'', ''Jason'', ''Angela'', ''Jeffrey'', ''Ashley'']"

definition last_names :: "string list" where
  "last_names =
    [''Smith'', ''Johnson'', ''Williams'', ''Brown'', ''Jones'', ''Garcia'', ''Miller'', ''Davis'',
     ''Rodriguez'', ''Martinez'', ''Hernandez'', ''Lopez'', ''Gonzalez'', ''Wilson'', ''Anderson'',
     ''Thomas'', ''Taylor'', ''Moore'', ''Jackson'', ''Martin'', ''Lee'', ''Perez'', ''Thompson'',
     ''White'', ''Harris'', ''Sanchez'', ''Clark'', ''Ramirez'', ''Lewis'', ''Robinson'', ''Walker'',
     ''Young'', ''Allen'', ''King'', ''Wright'', ''Scott'', ''Torres'', ''Nguyen'', ''Hill'',
     ''Flores'', ''Green'', ''Adams'', ''Nelson'', ''Baker'', ''Hall'', ''Rivera'', ''Campbell'',
     ''Mitchell'', ''Carter'', ''Roberts'', ''Gomez'', ''Phillips'', ''Evans'', ''Turner'', ''Diaz'']"

subsection \<open>Python's \<^verbatim>\<open>str\<close>, \<^verbatim>\<open>zfill\<close>, \<^verbatim>\<open>range\<close> and \<^verbatim>\<open>random.choice\<close>\<close>

text \<open>\<^verbatim>\<open>str(n)\<close> of an integer: its decimal digits, most significant first, after a
  minus sign when it is negative. CPython converts no integer of more than
  \<^verbatim>\<open>sys.int_max_str_digits\<close> digits (4300 unless it is configured otherwise, the sign not
  counted) and raises \<^verbatim>\<open>ValueError\<close> instead.\<close>

datatype error = IndexError | ValueError

definition digit_char :: "nat \<Rightarrow> char" where
  "digit_char d = char_of (48 + d)"

fun str_nat :: "nat \<Rightarrow> string" where
  "str_nat n = (if n < 10 then [digit_char n] else str_nat (n div 10) @ [digit_char (n mod 10)])"

declare str_nat.simps [simp del]

definition decimal_string :: "int \<Rightarrow> string" where
  "decimal_string i = (if i < 0 then CHR ''-'' # str_nat (nat (- i)) else str_nat (nat i))"

definition int_max_str_digits :: nat where
  "int_max_str_digits = 4300"

definition str :: "int \<Rightarrow> error + string" where
  "str i =
    (if int_max_str_digits < length (str_nat (nat \<bar>i\<bar>)) then Inl ValueError
     else Inr (decimal_string i))"

text \<open>\<^verbatim>\<open>s.zfill(width)\<close>: the string itself when it is already \<open>width\<close> long or longer;
  otherwise zeros on the left, after a leading sign when there is one.\<close>

definition zfill :: "string \<Rightarrow> nat \<Rightarrow> string" where
  "zfill s width =
    (if width \<le> length s then s
     else (let fill = replicate (width - length s) (CHR ''0'') in
       case s of
         [] \<Rightarrow> fill
       | c # cs \<Rightarrow> if c = CHR ''+'' \<or> c = CHR ''-'' then c # fill @ cs else fill @ s))"

text \<open>\<^verbatim>\<open>range(count)\<close>: the integers \<open>0, ..., count - 1\<close>, none when \<open>count \<le> 0\<close>.\<close>

definition range_int :: "int \<Rightarrow> int list" where
  "range_int count = [0..count - 1]"

text \<open>The random generator is the sequence of raw draws still to come. \<^verbatim>\<open>random.choice(seq)\<close>
  raises \<^verbatim>\<open>IndexError\<close> on an empty sequence and otherwise returns the element at an index
  below \<open>length seq\<close>, consuming one draw.\<close>

type_synonym rng = "nat \<Rightarrow> nat"

definition choice :: "'a list \<Rightarrow> rng \<Rightarrow> error + ('a \<times> rng)" where
  "choice seq r =
    (if seq = [] then Inl IndexError
     else Inr (seq ! (r 0 mod length seq), \<lambda>k. r (Suc k)))"

subsection \<open>\<^verbatim>\<open>generate_participants\<close>\<close>

text \<open>A participant is the dictionary with the three keys \<^verbatim>\<open>'first'\<close>, \<^verbatim>\<open>'last'\<close> and
  \<^verbatim>\<open>'ticket_number'\<close> (\<open>last\<close> is the list function of HOL, hence the prime).\<close>

record participant =
  first :: string
  last' :: string
  ticket_number :: string

text \<open>The body of the \<^verbatim>\<open>for\<close> loop, run for the remaining indices; the state is the random
  generator and the list \<^verbatim>\<open>participants\<close> built so far.\<close>

fun participants_loop ::
  "int \<Rightarrow> int \<Rightarrow> int list \<Rightarrow> participant list \<Rightarrow> rng \<Rightarrow> error + (participant list \<times> rng)" where
  "participants_loop count start_ticket [] participants r = Inr (participants, r)"
| "participants_loop count start_ticket (i # rest) participants r =
    (case choice first_names r of
       Inl e \<Rightarrow> Inl e
     | Inr (fst_name, r1) \<Rightarrow>
        (case choice last_names r1 of
           Inl e \<Rightarrow> Inl e
         | Inr (lst_name, r2) \<Rightarrow>
            (case str (start_ticket + i) of
               Inl e \<Rightarrow> Inl e
             | Inr s \<Rightarrow>
                (case str (start_ticket + count - 1) of
                   Inl e \<Rightarrow> Inl e
                 | Inr s_last \<Rightarrow>
                    (let ticket = zfill s (length s_last)
                     in participants_loop count start_ticket rest
                          (participants @
                             [\<lparr>first = fst_name, last' = lst_name, ticket_number = ticket\<rparr>])
                          r2)))))"

definition generate_participants ::
  "int \<Rightarrow> int \<Rightarrow> rng \<Rightarrow> error + (participant list \<times> rng)" where
  "generate_participants count start_ticket r =
    participants_loop count start_ticket (range_int count) [] r"


subsection \<open>The CSV writer\<close>

text \<open>\<^verbatim>\<open>csv.DictWriter\<close> with the default dialect \<^verbatim>\<open>excel\<close>: the delimiter is a comma, the
  quote character a double quote, quotes inside a field are doubled, rows end in CR LF
  and a field is quoted only when it has to be (\<^verbatim>\<open>QUOTE_MINIMAL\<close>).\<close>

definition delimiter :: char where
  "delimiter = CHR '',''"

definition quotechar :: char where
  "quotechar = CHR 0x22"

definition CR :: char where
  "CR = CHR 0x0D"

definition LF :: char where
  "LF = CHR 0x0A"

definition lineterminator :: string where
  "lineterminator = [CR, LF]"

text \<open>The writer copies a field character by character. A delimiter, a quote character or
  a character of the line terminator sets the flag \<open>quoted\<close>, and a quote character is
  written twice.\<close>

fun join_append_data :: "string \<Rightarrow> string \<Rightarrow> bool \<Rightarrow> string \<times> bool" where
  "join_append_data [] out quoted = (out, quoted)"
| "join_append_data (c # cs) out quoted =
    (if c = delimiter \<or> c = quotechar \<or> c \<in> set lineterminator
     then join_append_data cs (out @ (if c = quotechar then [quotechar] else []) @ [c]) True
     else join_append_data cs (out @ [c]) quoted)"

definition join_append :: "string \<Rightarrow> string" where
  "join_append field =
    (case join_append_data field [] False of
       (out, quoted) \<Rightarrow> if quoted then [quotechar] @ out @ [quotechar] else out)"

fun join_fields :: "string list \<Rightarrow> string" where
  "join_fields [] = []"
| "join_fields [f] = join_append f"
| "join_fields (f # fs) = join_append f @ [delimiter] @ join_fields fs"

text \<open>\<^verbatim>\<open>writer.writerow\<close>: the joined fields and the line terminator; a row of one empty
  field is written as a pair of quotes.\<close>

definition writerow :: "string list \<Rightarrow> string" where
  "writerow row =
    (let rec = join_fields row
     in (if row \<noteq> [] \<and> rec = [] then [quotechar, quotechar] else rec) @ lineterminator)"

definition fieldnames :: "string list" where
  "fieldnames = [''first'', ''last'', ''ticket_number'']"

definition dict_to_list :: "participant \<Rightarrow> string list" where
  "dict_to_list p = [first p, last' p, ticket_number p]"

text \<open>The file \<open>f\<close> is its contents so far; both methods append to it.\<close>

definition writeheader :: "string \<Rightarrow> string" where
  "writeheader f = f @ writerow fieldnames"

fun writerows :: "participant list \<Rightarrow> string \<Rightarrow> string" where
  "writerows [] f = f"
| "writerows (p # ps) f = writerows ps (f @ writerow (dict_to_list p))"

subsection \<open>\<^verbatim>\<open>write_csv\<close> and \<^verbatim>\<open>main\<close>\<close>

text \<open>The world of the script: the random generator, the files in the directory of the
  script (file name to contents) and the texts printed so far, one per \<^verbatim>\<open>print\<close>. A
  character is a byte, and the two symbols the script prints are their UTF-8 bytes.\<close>

record world =
  random :: rng
  files :: "string \<rightharpoonup> string"
  stdout :: "string list"

text \<open>The format \<^verbatim>\<open>{n:,}\<close> of a natural number: its digits in groups of three. The
  number formatted is the length of a list, far below the limit of the conversion.\<close>

fun group3 :: "string \<Rightarrow> string" where
  "group3 (a # b # c # d # ds) = a # b # c # CHR '','' # group3 (d # ds)"
| "group3 ds = ds"

definition format_thousands :: "nat \<Rightarrow> string" where
  "format_thousands n = rev (group3 (rev (str_nat n)))"

definition check_mark :: string where
  "check_mark = [CHR 0xE2, CHR 0x9C, CHR 0x85]"

definition party_popper :: string where
  "party_popper = [CHR 0xF0, CHR 0x9F, CHR 0x8E, CHR 0x89]"

definition write_csv :: "string \<Rightarrow> participant list \<Rightarrow> world \<Rightarrow> world" where
  "write_csv filename participants w =
    (let f = writerows participants (writeheader [])
     in w\<lparr>files := (files w)(filename \<mapsto> f),
          stdout := stdout w @
            [check_mark @ '' Generated '' @ filename @ '': '' @
               format_thousands (length participants) @ '' entries'']\<rparr>)"

definition main :: "world \<Rightarrow> error + world" where
  "main w0 =
    (case generate_participants 5000 10001 (random w0) of
       Inl e \<Rightarrow> Inl e
     | Inr (participants_5k, r1) \<Rightarrow>
    (let w1 = write_csv ''raffle-5k.csv'' participants_5k (w0\<lparr>random := r1\<rparr>) in
     case generate_participants 10000 20001 (random w1) of
       Inl e \<Rightarrow> Inl e
     | Inr (participants_10k, r2) \<Rightarrow>
    (let w2 = write_csv ''raffle-10k.csv'' participants_10k (w1\<lparr>random := r2\<rparr>) in
     case generate_participants 25000 50001 (random w2) of
       Inl e \<Rightarrow> Inl e
     | Inr (participants_25k, r3) \<Rightarrow>
    (let w3 = write_csv ''raffle-25k.csv'' participants_25k (w2\<lparr>random := r3\<rparr>) in
     case generate_participants 50000 100001 (random w3) of
       Inl e \<Rightarrow> Inl e
     | Inr (participants_50k, r4) \<Rightarrow>
    (let w4 = write_csv ''raffle-50k.csv'' participants_50k (w3\<lparr>random := r4\<rparr>) in
     case generate_participants 100000 200001 (random w4) of
       Inl e \<Rightarrow> Inl e
     | Inr (participants_100k, r5) \<Rightarrow>
    (let w5 = write_csv ''raffle-100k.csv'' participants_100k (w4\<lparr>random := r5\<rparr>) in
     Inr (w5\<lparr>stdout := stdout w5 @
       [[LF] @ party_popper @ '' All sample CSV files generated successfully!'',
        ''Files are located in: apps/spinner-extension/samples/'']\<rparr>)))))))"


subsection \<open>Notions of the specification\<close>

text \<open>The integer a ticket string stands for: its digits read in base ten, negated after
  a minus sign.\<close>

definition digit_val :: "char \<Rightarrow> nat" where
  "digit_val c = of_char c - 48"

definition digits_val :: "string \<Rightarrow> nat" where
  "digits_val s = foldl (\<lambda>a c. 10 * a + digit_val c) 0 s"

definition ticket_value :: "string \<Rightarrow> int" where
  "ticket_value s =
    (case s of
       [] \<Rightarrow> 0
     | c # cs \<Rightarrow> if c = CHR ''-'' then - int (digits_val cs) else int (digits_val s))"

text \<open>An integer that Python converts to a string: it has at most 4300 decimal digits.\<close>

definition fits :: "int \<Rightarrow> bool" where
  "fits k \<longleftrightarrow> \<bar>k\<bar> < 10 ^ int_max_str_digits"

text \<open>The zero-padded ticket string of the integer \<open>k\<close> in the batch \<open>(count, start_ticket)\<close>:
  the digits of \<open>k\<close> after as many zeros as its decimal string is shorter than the decimal
  string of the last ticket number \<open>start_ticket + count - 1\<close>, the zeros after the minus
  sign when \<open>k\<close> is negative.\<close>

definition ticket_of :: "int \<Rightarrow> int \<Rightarrow> int \<Rightarrow> string" where
  "ticket_of count start_ticket k =
    (let zeros =
       replicate (length (decimal_string (start_ticket + count - 1)) - length (decimal_string k))
         (CHR ''0'')
     in if k < 0 then CHR ''-'' # zeros @ str_nat (nat (- k)) else zeros @ str_nat (nat k))"

text \<open>Quoting in the style of RFC 4180: a field that contains the delimiter, the quote
  character or a line break stands between quotes, with its quotes doubled; any other
  field stands as it is.\<close>

definition needs_quoting :: "string \<Rightarrow> bool" where
  "needs_quoting s \<longleftrightarrow>
     CHR '','' \<in> set s \<or> CHR 0x22 \<in> set s \<or> CHR 0x0D \<in> set s \<or> CHR 0x0A \<in> set s"

definition double_quotes :: "string \<Rightarrow> string" where
  "double_quotes s = concat (map (\<lambda>c. if c = CHR 0x22 then [c, c] else [c]) s)"

definition rfc4180_field :: "string \<Rightarrow> string" where
  "rfc4180_field s =
    (if needs_quoting s then [CHR 0x22] @ double_quotes s @ [CHR 0x22] else s)"

definition rfc4180_row :: "participant \<Rightarrow> string" where
  "rfc4180_row p =
    rfc4180_field (first p) @ '','' @ rfc4180_field (last' p) @ '','' @
    rfc4180_field (ticket_number p) @ [CHR 0x0D, CHR 0x0A]"

text \<open>The text of a CSV file with the header row and one row for each participant.\<close>

definition csv_text :: "participant list \<Rightarrow> string" where
  "csv_text ps = ''first,last,ticket_number'' @ [CHR 0x0D, CHR 0x0A] @ concat (map rfc4180_row ps)"

text \<open>The batch driver as the specification describes it: a table of file name, count
  and start ticket, each entry generated and then written, in order, and the two closing
  messages.\<close>

definition batches :: "(string \<times> int \<times> int) list" where
  "batches =
    [(''raffle-5k.csv'', 5000, 10001),
     (''raffle-10k.csv'', 10000, 20001),
     (''raffle-25k.csv'', 25000, 50001),
     (''raffle-50k.csv'', 50000, 100001),
     (''raffle-100k.csv'', 100000, 200001)]"

fun run_batches :: "(string \<times> int \<times> int) list \<Rightarrow> world \<Rightarrow> error + world" where
  "run_batches [] w = Inr w"
| "run_batches ((filename, count, start_ticket) # bs) w =
    (case generate_participants count start_ticket (random w) of
       Inl e \<Rightarrow> Inl e
     | Inr (participants, r) \<Rightarrow> run_batches bs (write_csv filename participants (w\<lparr>random := r\<rparr>)))"

definition batch_driver :: "world \<Rightarrow> error + world" where
  "batch_driver w =
    (case run_batches batches w of
       Inl e \<Rightarrow> Inl e
     | Inr w' \<Rightarrow> Inr (w'\<lparr>stdout := stdout w' @
         [[LF] @ party_popper @ '' All sample CSV files generated successfully!'',
          ''Files are located in: apps/spinner-extension/samples/'']\<rparr>))"

subsection \<open>Reading a CSV file back\<close>

text \<open>Modelled from the spec: the script has no CSV reader, and the round trip of the
  specification parses the written file back into records. The reader below is the
  counterpart of the writer, Python's \<^verbatim>\<open>csv.DictReader\<close> with the default dialect on a file
  opened with \<^verbatim>\<open>newline=''\<close>: the file is read line by line (a line ends after LF, after
  CR LF or after a lone CR), each line is fed to the state machine of the parser
  character by character and is followed by an end-of-line signal (\<open>None\<close>), and a record is
  complete when the machine is back in \<open>START_RECORD\<close>. The states for an escape
  character are left out (the dialect has none), and so is the limit on the length of a
  field.\<close>

fun split_lines :: "string \<Rightarrow> string \<Rightarrow> string list" where
  "split_lines cur [] = (if cur = [] then [] else [cur])"
| "split_lines cur (c # cs) =
    (if c = LF then (cur @ [c]) # split_lines [] cs
     else if c = CR then
       (case cs of
          [] \<Rightarrow> [cur @ [c]]
        | d # ds \<Rightarrow> if d = LF then (cur @ [c, d]) # split_lines [] ds
                   else (cur @ [c]) # split_lines [] cs)
     else split_lines (cur @ [c]) cs)"

datatype parser_state =
  START_RECORD | START_FIELD | IN_FIELD | IN_QUOTED_FIELD | QUOTE_IN_QUOTED_FIELD | EAT_CRNL

datatype csv_error = NewlineInUnquotedField | NotAParticipant

record reader =
  pstate :: parser_state
  pfields :: "string list"
  pfield :: string

definition parse_reset :: reader where
  "parse_reset = \<lparr>pstate = START_RECORD, pfields = [], pfield = []\<rparr>"

definition parse_save_field :: "reader \<Rightarrow> reader" where
  "parse_save_field rd = rd\<lparr>pfields := pfields rd @ [pfield rd], pfield := []\<rparr>"

definition parse_add_char :: "reader \<Rightarrow> char \<Rightarrow> reader" where
  "parse_add_char rd c = rd\<lparr>pfield := pfield rd @ [c]\<rparr>"

definition end_of_record :: "reader \<Rightarrow> char option \<Rightarrow> reader" where
  "end_of_record rd c =
    (parse_save_field rd)\<lparr>pstate := (if c = None then START_RECORD else EAT_CRNL)\<rparr>"

definition start_field :: "reader \<Rightarrow> char option \<Rightarrow> reader" where
  "start_field rd c =
    (if c = Some LF \<or> c = Some CR \<or> c = None then end_of_record rd c
     else if c = Some quotechar then rd\<lparr>pstate := IN_QUOTED_FIELD\<rparr>
     else if c = Some delimiter then parse_save_field rd
     else (case c of
             None \<Rightarrow> rd
           | Some ch \<Rightarrow> (parse_add_char rd ch)\<lparr>pstate := IN_FIELD\<rparr>))"

definition parse_process_char :: "reader \<Rightarrow> char option \<Rightarrow> csv_error + reader" where
  "parse_process_char rd c =
    (case pstate rd of
       START_RECORD \<Rightarrow>
         (if c = None then Inr rd
          else if c = Some LF \<or> c = Some CR then Inr (rd\<lparr>pstate := EAT_CRNL\<rparr>)
          else Inr (start_field (rd\<lparr>pstate := START_FIELD\<rparr>) c))
     | START_FIELD \<Rightarrow> Inr (start_field rd c)
     | IN_FIELD \<Rightarrow>
         (if c = Some LF \<or> c = Some CR \<or> c = None then Inr (end_of_record rd c)
          else if c = Some delimiter then Inr ((parse_save_field rd)\<lparr>pstate := START_FIELD\<rparr>)
          else (case c of
                  None \<Rightarrow> Inr rd
                | Some ch \<Rightarrow> Inr (parse_add_char rd ch)))
     | IN_QUOTED_FIELD \<Rightarrow>
         (case c of
            None \<Rightarrow> Inr rd
          | Some ch \<Rightarrow>
              if ch = quotechar then Inr (rd\<lparr>pstate := QUOTE_IN_QUOTED_FIELD\<rparr>)
              else Inr (parse_add_char rd ch))
     | QUOTE_IN_QUOTED_FIELD \<Rightarrow>
         (if c = Some quotechar then Inr ((parse_add_char rd quotechar)\<lparr>pstate := IN_QUOTED_FIELD\<rparr>)
          else if c = Some delimiter then Inr ((parse_save_field rd)\<lparr>pstate := START_FIELD\<rparr>)
          else if c = Some LF \<or> c = Some CR \<or> c = None then Inr (end_of_record rd c)
          else (case c of
                  None \<Rightarrow> Inr rd
                | Some ch \<Rightarrow> Inr ((parse_add_char rd ch)\<lparr>pstate := IN_FIELD\<rparr>)))
     | EAT_CRNL \<Rightarrow>
         (if c = Some LF \<or> c = Some CR then Inr rd
          else if c = None then Inr (rd\<lparr>pstate := START_RECORD\<rparr>)
          else Inl NewlineInUnquotedField))"

fun process_line :: "reader \<Rightarrow> string \<Rightarrow> csv_error + reader" where
  "process_line rd [] = Inr rd"
| "process_line rd (c # cs) =
    (case parse_process_char rd (Some c) of
       Inl e \<Rightarrow> Inl e
     | Inr rd' \<Rightarrow> process_line rd' cs)"

text \<open>The rows of the file: the reader takes lines until a record is complete, and starts
  the next record afresh. When the lines run out inside a quoted field, the field read so
  far ends the last record.\<close>

fun reader_loop :: "string list \<Rightarrow> reader \<Rightarrow> csv_error + string list list" where
  "reader_loop [] rd =
    (if pfield rd \<noteq> [] \<or> pstate rd = IN_QUOTED_FIELD
     then Inr [pfields (parse_save_field rd)] else Inr [])"
| "reader_loop (line # lines) rd =
    (case process_line rd line of
       Inl e \<Rightarrow> Inl e
     | Inr rd1 \<Rightarrow>
        (case parse_process_char rd1 None of
           Inl e \<Rightarrow> Inl e
         | Inr rd2 \<Rightarrow>
            if pstate rd2 = START_RECORD
            then (case reader_loop lines parse_reset of
                    Inl e \<Rightarrow> Inl e
                  | Inr rows \<Rightarrow> Inr (pfields rd2 # rows))
            else reader_loop lines rd2))"

definition csv_reader :: "string \<Rightarrow> csv_error + string list list" where
  "csv_reader text = reader_loop (split_lines [] text) parse_reset"

text \<open>\<^verbatim>\<open>DictReader\<close>: the first row names the keys, empty rows are skipped, and every other
  row becomes the dictionary of its values under those keys (a later value of a key
  replacing an earlier one). The dictionary is a participant when its keys are the three
  field names and the row has a value for each.\<close>

definition participant_of_row :: "string list \<Rightarrow> string list \<Rightarrow> csv_error + participant" where
  "participant_of_row keys row =
    (if length row = length keys \<and> set keys = set fieldnames
     then (let d = map_of (rev (zip keys row))
           in case (d ''first'', d ''last'', d ''ticket_number'') of
                (Some a, Some b, Some t) \<Rightarrow> Inr \<lparr>first = a, last' = b, ticket_number = t\<rparr>
              | _ \<Rightarrow> Inl NotAParticipant)
     else Inl NotAParticipant)"

fun participants_of_rows :: "string list \<Rightarrow> string list list \<Rightarrow> csv_error + participant list" where
  "participants_of_rows keys [] = Inr []"
| "participants_of_rows keys (row # rows) =
    (if row = [] then participants_of_rows keys rows
     else (case participant_of_row keys row of
             Inl e \<Rightarrow> Inl e
           | Inr p \<Rightarrow>
              (case participants_of_rows keys rows of
                 Inl e \<Rightarrow> Inl e
               | Inr ps \<Rightarrow> Inr (p # ps))))"

definition read_csv :: "string \<Rightarrow> csv_error + participant list" where
  "read_csv text =
    (case csv_reader text of
       Inl e \<Rightarrow> Inl e
     | Inr [] \<Rightarrow> Inr []
     | Inr (keys # rows) \<Rightarrow> participants_of_rows keys rows)"

section \<open>Properties\<close>

subsection \<open>Decimal strings and padding\<close>

lemma digit_val_digit_char: "d < 10 \<Longrightarrow> digit_val (digit_char d) = d"
  by (simp add: digit_val_def digit_char_def)

lemma digit_char_not_special:
  "d < 10 \<Longrightarrow> digit_char d \<noteq> CHR ''-'' \<and> digit_char d \<noteq> CHR ''+'' \<and> digit_char d \<noteq> CHR '',''
     \<and> digit_char d \<noteq> CHR 0x22 \<and> digit_char d \<noteq> CHR 0x0D \<and> digit_char d \<noteq> CHR 0x0A"
  by (auto simp add: digit_char_def char_of_eq_iff take_bit_eq_mod)

lemma digits_val_snoc: "digits_val (xs @ [c]) = 10 * digits_val xs + digit_val c"
  by (simp add: digits_val_def)

lemma digits_val_str_nat: "digits_val (str_nat n) = n"
proof (induction n rule: str_nat.induct)
  case (1 n)
  show ?case
  proof (cases "n < 10")
    case True
    then show ?thesis
      by (simp add: str_nat.simps [of n] digits_val_def digit_val_digit_char)
  next
    case False
    with 1 show ?thesis
      by (simp add: str_nat.simps [of n] digits_val_snoc digit_val_digit_char)
  qed
qed

lemma str_nat_digits: "c \<in> set (str_nat n) \<Longrightarrow> \<exists>d<10. c = digit_char d"
proof (induction n rule: str_nat.induct)
  case (1 n)
  show ?case
  proof (cases "n < 10")
    case True
    with 1(2) show ?thesis
      by (auto simp add: str_nat.simps [of n])
  next
    case False
    have "n mod 10 < 10" by simp
    with False 1 show ?thesis
      by (auto simp add: str_nat.simps [of n] simp del: mod_less_divisor)
  qed
qed

lemma str_nat_not_Nil: "str_nat n \<noteq> []"
  by (subst str_nat.simps) simp

lemma digits_val_zeros: "digits_val (replicate k (CHR ''0'') @ s) = digits_val s"
proof (induction k)
  case 0 show ?case by simp
next
  case (Suc k)
  have "digits_val (CHR ''0'' # t) = digits_val t" for t
  proof (induction t rule: rev_induct)
    case Nil show ?case by (simp add: digits_val_def digit_val_def)
  next
    case (snoc x xs)
    have "digits_val (CHR ''0'' # xs @ [x]) = digits_val ((CHR ''0'' # xs) @ [x])" by simp
    also have "\<dots> = 10 * digits_val (CHR ''0'' # xs) + digit_val x" by (rule digits_val_snoc)
    finally show ?case using snoc by (simp add: digits_val_snoc)
  qed
  with Suc show ?case by simp
qed

lemma hd_str_nat: "\<exists>d cs. d < 10 \<and> str_nat n = digit_char d # cs"
proof -
  obtain c cs where e: "str_nat n = c # cs"
    using str_nat_not_Nil [of n] by (cases "str_nat n") auto
  then have "c \<in> set (str_nat n)" by simp
  then obtain d where "d < 10" "c = digit_char d" using str_nat_digits by blast
  with e show ?thesis by blast
qed

lemma ticket_value_zfill_decimal: "ticket_value (zfill (decimal_string k) w) = k"
proof (cases "k < 0")
  case True
  then show ?thesis
    using digits_val_zeros [of "w - Suc (length (str_nat (nat (- k))))" "str_nat (nat (- k))"]
    by (simp add: decimal_string_def zfill_def ticket_value_def digits_val_str_nat Let_def)
next
  case False
  obtain d cs where d: "d < 10" "str_nat (nat k) = digit_char d # cs"
    using hd_str_nat by blast
  have v: "digits_val (digit_char d # cs) = nat k"
    using digits_val_str_nat [of "nat k"] d by simp
  show ?thesis
    using False d v digit_char_not_special [of d]
      digits_val_zeros [of "w - Suc (length cs)" "digit_char d # cs"]
    apply (simp add: decimal_string_def zfill_def ticket_value_def Let_def)
    apply (cases "w - Suc (length cs)")
    apply (auto simp add: digits_val_zeros)
    done
qed


lemma length_str_nat_pos: "0 < length (str_nat n)"
  using str_nat_not_Nil [of n] by simp

lemma str_nat_upper: "n < 10 ^ length (str_nat n)"
proof (induction n rule: str_nat.induct)
  case (1 n)
  show ?case
  proof (cases "n < 10")
    case True
    then show ?thesis by (simp add: str_nat.simps [of n])
  next
    case False
    with 1 have "n div 10 < 10 ^ length (str_nat (n div 10))" by simp
    then have "n < 10 * 10 ^ length (str_nat (n div 10))" by simp
    with False show ?thesis by (simp add: str_nat.simps [of n])
  qed
qed

lemma str_nat_lower: "0 < n \<Longrightarrow> 10 ^ (length (str_nat n) - 1) \<le> n"
proof (induction n rule: str_nat.induct)
  case (1 n)
  show ?case
  proof (cases "n < 10")
    case True
    with 1(2) show ?thesis by (simp add: str_nat.simps [of n])
  next
    case False
    then have "0 < n div 10" by simp
    with 1(1) False have ih: "10 ^ (length (str_nat (n div 10)) - 1) \<le> n div 10" by simp
    have "(10::nat) ^ length (str_nat (n div 10)) = 10 * 10 ^ (length (str_nat (n div 10)) - 1)"
      using length_str_nat_pos [of "n div 10"]
      by (cases "length (str_nat (n div 10))") simp_all
    also have "\<dots> \<le> 10 * (n div 10)" using ih by simp
    also have "\<dots> \<le> n" by simp
    finally show ?thesis using False by (simp add: str_nat.simps [of n])
  qed
qed

lemma str_nat_length_mono:
  assumes "m \<le> n"
  shows "length (str_nat m) \<le> length (str_nat n)"
proof (cases "m = 0")
  case True
  then show ?thesis
    using str_nat_not_Nil [of n] by (cases "str_nat n") (simp_all add: str_nat.simps [of 0])
next
  case False
  then have "(10::nat) ^ (length (str_nat m) - 1) \<le> m" using str_nat_lower [of m] by simp
  also have "m \<le> n" by (rule assms)
  also have "n < 10 ^ length (str_nat n)" by (rule str_nat_upper)
  finally have "length (str_nat m) - 1 < length (str_nat n)" by simp
  then show ?thesis by simp
qed

lemma length_zfill: "length (zfill s w) = max w (length s)"
  by (cases s) (auto simp add: zfill_def Let_def)

lemma length_str_nat_le:
  assumes "0 < d"
  shows "length (str_nat n) \<le> d \<longleftrightarrow> n < 10 ^ d"
proof
  assume "length (str_nat n) \<le> d"
  then have "(10::nat) ^ length (str_nat n) \<le> 10 ^ d" by (simp add: power_increasing)
  with str_nat_upper [of n] show "n < 10 ^ d" by (rule order_less_le_trans)
next
  assume n: "n < 10 ^ d"
  show "length (str_nat n) \<le> d"
  proof (cases "n = 0")
    case True
    then show ?thesis using assms by (simp add: str_nat.simps [of 0])
  next
    case False
    then have "(10::nat) ^ (length (str_nat n) - 1) \<le> n" using str_nat_lower [of n] by simp
    from this n have "(10::nat) ^ (length (str_nat n) - 1) < 10 ^ d" by (rule order_le_less_trans)
    then have "length (str_nat n) - 1 < d" by simp
    then show ?thesis by simp
  qed
qed

lemma str_cases: "str k = (if fits k then Inr (decimal_string k) else Inl ValueError)"
proof -
  have pos: "0 < int_max_str_digits" by (simp add: int_max_str_digits_def)
  have "length (str_nat (nat \<bar>k\<bar>)) \<le> int_max_str_digits \<longleftrightarrow>
      nat \<bar>k\<bar> < 10 ^ int_max_str_digits"
    by (rule length_str_nat_le [OF pos])
  also have "\<dots> \<longleftrightarrow> \<bar>k\<bar> < 10 ^ int_max_str_digits"
    by (simp add: nat_less_iff)
  finally show ?thesis by (auto simp add: str_def fits_def)
qed

lemma fits_between: "fits a \<Longrightarrow> fits b \<Longrightarrow> a \<le> k \<Longrightarrow> k \<le> b \<Longrightarrow> fits k"
  unfolding fits_def by linarith

lemma fits_small:
  assumes "\<bar>k\<bar> < 10 ^ 7"
  shows "fits k"
proof -
  have "(10::int) ^ 7 \<le> 10 ^ int_max_str_digits"
    by (rule power_increasing) (simp_all add: int_max_str_digits_def)
  with assms show ?thesis unfolding fits_def by (rule order_less_le_trans)
qed

lemma not_fits_limit: "\<not> fits (10 ^ int_max_str_digits)" "\<not> fits (- (10 ^ int_max_str_digits))"
  by (simp_all add: fits_def)

lemma zfill_decimal_string:
  "zfill (decimal_string k) w =
    (if k < 0
     then CHR ''-'' # replicate (w - length (decimal_string k)) (CHR ''0'') @ str_nat (nat (- k))
     else replicate (w - length (decimal_string k)) (CHR ''0'') @ str_nat (nat k))"
proof (cases "k < 0")
  case True
  then show ?thesis by (simp add: decimal_string_def zfill_def Let_def)
next
  case False
  obtain d cs where d: "d < 10" "str_nat (nat k) = digit_char d # cs"
    using hd_str_nat by blast
  with False digit_char_not_special [of d] show ?thesis
    by (simp add: decimal_string_def zfill_def Let_def)
qed

lemma ticket_of_zfill:
  "ticket_of count start_ticket k =
     zfill (decimal_string k) (length (decimal_string (start_ticket + count - 1)))"
  by (simp add: ticket_of_def zfill_decimal_string Let_def)

lemma choice_nonempty:
  "seq \<noteq> [] \<Longrightarrow> \<exists>x. x \<in> set seq \<and> choice seq r = Inr (x, \<lambda>k. r (Suc k))"
  by (simp add: choice_def)

lemma length_first_names: "length first_names = 56"
  by (simp add: first_names_def)

lemma length_last_names: "length last_names = 55"
  by (simp add: last_names_def)

lemma first_names_not_Nil: "first_names \<noteq> []"
  using length_first_names by auto

lemma last_names_not_Nil: "last_names \<noteq> []"
  using length_last_names by auto

lemma participants_loop_result:
  assumes "fits (start_ticket + count - 1)" and "\<forall>i \<in> set idx. fits (start_ticket + i)"
  shows "\<exists>ps. participants_loop count start_ticket idx acc r =
           Inr (acc @ ps, \<lambda>k. r (k + 2 * length idx)) \<and>
        map ticket_number ps = map (\<lambda>i. ticket_of count start_ticket (start_ticket + i)) idx \<and>
        (\<forall>p \<in> set ps. first p \<in> set first_names \<and> last' p \<in> set last_names)"
  using assms(2)
proof (induction idx arbitrary: acc r)
  case Nil
  show ?case by simp
next
  case (Cons i rest)
  obtain f where f: "f \<in> set first_names" "choice first_names r = Inr (f, \<lambda>k. r (Suc k))"
    using choice_nonempty [OF first_names_not_Nil] by blast
  obtain l where l: "l \<in> set last_names"
      "choice last_names (\<lambda>k. r (Suc k)) = Inr (l, \<lambda>k. r (Suc (Suc k)))"
    using choice_nonempty [OF last_names_not_Nil, of "\<lambda>k. r (Suc k)"] by blast
  have s: "str (start_ticket + i) = Inr (decimal_string (start_ticket + i))"
      "str (start_ticket + count - 1) = Inr (decimal_string (start_ticket + count - 1))"
    using Cons.prems assms(1) by (simp_all add: str_cases)
  define p where "p = \<lparr>first = f, last' = l,
    ticket_number = ticket_of count start_ticket (start_ticket + i)\<rparr>"
  have "\<forall>i \<in> set rest. fits (start_ticket + i)" using Cons.prems by simp
  from Cons.IH [OF this, of "acc @ [p]" "\<lambda>k. r (Suc (Suc k))"]
  obtain ps where ps:
    "participants_loop count start_ticket rest (acc @ [p]) (\<lambda>k. r (Suc (Suc k))) =
       Inr ((acc @ [p]) @ ps, \<lambda>k. r (Suc (Suc (k + 2 * length rest))))"
    "map ticket_number ps = map (\<lambda>i. ticket_of count start_ticket (start_ticket + i)) rest"
    "\<forall>p \<in> set ps. first p \<in> set first_names \<and> last' p \<in> set last_names"
    by auto
  have "participants_loop count start_ticket (i # rest) acc r =
          Inr (acc @ (p # ps), \<lambda>k. r (k + 2 * length (i # rest)))"
    using f(2) l(2) s ps(1) by (simp add: p_def ticket_of_zfill)
  moreover have "map ticket_number (p # ps) =
      map (\<lambda>i. ticket_of count start_ticket (start_ticket + i)) (i # rest)"
    using ps(2) by (simp add: p_def)
  moreover have "\<forall>q \<in> set (p # ps). first q \<in> set first_names \<and> last' q \<in> set last_names"
    using ps(3) f(1) l(1) by (simp add: p_def)
  ultimately show ?case by blast
qed

lemma participants_loop_error:
  assumes "\<not> fits (start_ticket + i) \<or> \<not> fits (start_ticket + count - 1)"
  shows "participants_loop count start_ticket (i # rest) acc r = Inl ValueError"
proof -
  obtain f where f: "choice first_names r = Inr (f, \<lambda>k. r (Suc k))"
    using choice_nonempty [OF first_names_not_Nil] by blast
  obtain l where l: "choice last_names (\<lambda>k. r (Suc k)) = Inr (l, \<lambda>k. r (Suc (Suc k)))"
    using choice_nonempty [OF last_names_not_Nil, of "\<lambda>k. r (Suc k)"] by blast
  show ?thesis
    using assms by (cases "fits (start_ticket + i)") (simp_all add: f l str_cases)
qed

lemma map_shift_upto: "map (\<lambda>i. g (s + i)) [0..n] = map g [s..s + n]"
proof (cases "0 \<le> n")
  case False
  then show ?thesis by simp
next
  case True
  then show ?thesis
  proof (induction n rule: int_ge_induct)
    case base
    show ?case by simp
  next
    case (step n)
    have "[0..n + 1] = [0..n] @ [n + 1]" using step.hyps by (simp add: upto_rec2)
    moreover have "[s..s + (n + 1)] = [s..s + n] @ [s + (n + 1)]"
      using step.hyps upto_rec2 [of s "s + (n + 1)"] by (simp add: add.assoc)
    ultimately show ?case using step.IH by simp
  qed
qed

lemma generate_participants_nonpositive:
  "count \<le> 0 \<Longrightarrow> generate_participants count start_ticket r = Inr ([], r)"
  by (simp add: generate_participants_def range_int_def)

lemma generate_participants_result:
  assumes "count \<le> 0 \<or> (fits start_ticket \<and> fits (start_ticket + count - 1))"
  shows "\<exists>ps. generate_participants count start_ticket r =
           Inr (ps, \<lambda>k. r (k + 2 * nat count)) \<and>
        map ticket_number ps =
          map (ticket_of count start_ticket) [start_ticket..start_ticket + count - 1] \<and>
        (\<forall>p \<in> set ps. first p \<in> set first_names \<and> last' p \<in> set last_names)"
proof (cases "count \<le> 0")
  case True
  then show ?thesis by (simp add: generate_participants_nonpositive)
next
  case False
  with assms have fit: "fits start_ticket" "fits (start_ticket + count - 1)" by simp_all
  have all: "\<forall>i \<in> set (range_int count). fits (start_ticket + i)"
  proof
    fix i assume "i \<in> set (range_int count)"
    then have "start_ticket \<le> start_ticket + i" "start_ticket + i \<le> start_ticket + count - 1"
      by (simp_all add: range_int_def)
    with fit show "fits (start_ticket + i)" by (rule fits_between)
  qed
  obtain ps where ps:
     "participants_loop count start_ticket (range_int count) [] r =
           Inr ([] @ ps, \<lambda>k. r (k + 2 * length (range_int count)))"
     "map ticket_number ps =
        map (\<lambda>i. ticket_of count start_ticket (start_ticket + i)) (range_int count)"
     "\<forall>p \<in> set ps. first p \<in> set first_names \<and> last' p \<in> set last_names"
    using participants_loop_result [OF fit(2) all, of "[]" r] by blast
  have "map (\<lambda>i. ticket_of count start_ticket (start_ticket + i)) (range_int count) =
      map (ticket_of count start_ticket) [start_ticket..start_ticket + count - 1]"
    using map_shift_upto [of "ticket_of count start_ticket" start_ticket "count - 1"]
    by (simp add: range_int_def algebra_simps)
  with ps show ?thesis
    by (auto simp add: generate_participants_def range_int_def)
qed

lemma generate_participants_error:
  assumes "1 \<le> count"
    and "\<not> fits start_ticket \<or> \<not> fits (start_ticket + count - 1)"
  shows "generate_participants count start_ticket r = Inl ValueError"
proof -
  have "range_int count = 0 # [1..count - 1]"
    using assms(1) by (simp add: range_int_def upto_rec1)
  moreover have "\<not> fits (start_ticket + 0) \<or> \<not> fits (start_ticket + count - 1)"
    using assms(2) by simp
  ultimately show ?thesis
    by (simp only: generate_participants_def participants_loop_error)
qed

lemma generate_participants_Inr:
  assumes "generate_participants count start_ticket r = Inr (ps, r')"
  shows "(count \<le> 0 \<or> (fits start_ticket \<and> fits (start_ticket + count - 1))) \<and>
     map ticket_number ps =
       map (ticket_of count start_ticket) [start_ticket..start_ticket + count - 1] \<and>
     (\<forall>p \<in> set ps. first p \<in> set first_names \<and> last' p \<in> set last_names)"
proof (cases "count \<le> 0 \<or> (fits start_ticket \<and> fits (start_ticket + count - 1))")
  case True
  from generate_participants_result [OF True, of r] assms True show ?thesis by auto
next
  case False
  then have "1 \<le> count" "\<not> fits start_ticket \<or> \<not> fits (start_ticket + count - 1)" by auto
  from generate_participants_error [OF this, of r] assms show ?thesis by simp
qed

lemma digit_char_values:
  "digit_char 0 = CHR ''0''" "digit_char 1 = CHR ''1''" "digit_char 2 = CHR ''2''"
  "digit_char 3 = CHR ''3''" "digit_char 4 = CHR ''4''" "digit_char 5 = CHR ''5''"
  "digit_char 6 = CHR ''6''" "digit_char 7 = CHR ''7''" "digit_char 8 = CHR ''8''"
  "digit_char 9 = CHR ''9''" "digit_char (Suc 0) = CHR ''1''"
  by (simp_all add: digit_char_def char_of_eq_iff take_bit_eq_mod)

lemmas str_eval = decimal_string_def str_nat.simps digit_char_values

lemma inj_ticket_of: "inj (ticket_of count start_ticket)"
proof (rule injI)
  fix a b assume "ticket_of count start_ticket a = ticket_of count start_ticket b"
  then have "ticket_value (ticket_of count start_ticket a) = ticket_value (ticket_of count start_ticket b)"
    by simp
  then show "a = b" by (simp add: ticket_of_zfill ticket_value_zfill_decimal)
qed

subsection \<open>Claim C1: the tickets of a batch\<close>

text \<open>C1 says that \<open>generate_participants\<close> returns a batch for every \<open>count \<ge> 0\<close> and every
  \<open>start_ticket\<close>. Python converts no integer of more than 4300 digits to a string: for
  \<open>count = 1\<close> and \<open>start_ticket = 10 ^ 4300\<close> the call fails with \<^verbatim>\<open>ValueError\<close>.\<close>

theorem generate_participants_tickets_counterexample:
  "generate_participants 1 (10 ^ int_max_str_digits) (\<lambda>_. 0) = Inl ValueError"
  by (rule generate_participants_error) (simp_all add: not_fits_limit)

text \<open>C1, amended. For every \<open>count \<ge> 0\<close> and every \<open>start_ticket\<close> such that, when
  \<open>count > 0\<close>, \<open>start_ticket\<close> and \<open>start_ticket + count - 1\<close> have at most 4300 decimal
  digits, \<open>generate_participants\<close> returns without error exactly \<open>count\<close> records. The record
  at index \<open>i\<close> has as ticket number the decimal digits of \<open>k = start_ticket + i\<close> after as
  many zeros as the decimal string of \<open>k\<close> is shorter than the decimal string of
  \<open>start_ticket + count - 1\<close> (the zeros after the minus sign when \<open>k\<close> is negative). The
  integers the ticket numbers stand for are \<open>start_ticket, ..., start_ticket + count - 1\<close>
  in ascending order, the set of ticket numbers is the set of the padded strings of that
  range, and no ticket number occurs twice.\<close>

theorem generate_participants_tickets:
  assumes "0 \<le> count"
    and "count = 0 \<or> (fits start_ticket \<and> fits (start_ticket + count - 1))"
  shows "\<exists>ps r'. generate_participants count start_ticket r = Inr (ps, r') \<and>
     length ps = nat count \<and>
     (\<forall>i < nat count. ticket_number (ps ! i) =
        (if start_ticket + int i < 0
         then CHR ''-'' #
           replicate (length (decimal_string (start_ticket + count - 1)) -
                      length (decimal_string (start_ticket + int i))) (CHR ''0'') @
           str_nat (nat (- (start_ticket + int i)))
         else
           replicate (length (decimal_string (start_ticket + count - 1)) -
                      length (decimal_string (start_ticket + int i))) (CHR ''0'') @
           str_nat (nat (start_ticket + int i)))) \<and>
     map (\<lambda>p. ticket_value (ticket_number p)) ps = [start_ticket..start_ticket + count - 1] \<and>
     ticket_number ` set ps =
       ticket_of count start_ticket ` {start_ticket..start_ticket + count - 1} \<and>
     distinct (map ticket_number ps)"
proof -
  let ?T = "ticket_of count start_ticket"
  let ?I = "[start_ticket..start_ticket + count - 1]"
  have ok: "count \<le> 0 \<or> (fits start_ticket \<and> fits (start_ticket + count - 1))"
    using assms(2) by auto
  obtain ps where ps:
    "generate_participants count start_ticket r = Inr (ps, \<lambda>k. r (k + 2 * nat count))"
    "map ticket_number ps = map ?T ?I"
    using generate_participants_result [OF ok, of r] by blast
  have len: "length ps = nat count"
    using arg_cong [OF ps(2), of length] by simp
  have nth: "ticket_number (ps ! i) = ?T (start_ticket + int i)" if "i < nat count" for i
  proof -
    have "ticket_number (ps ! i) = map ticket_number ps ! i" using that len by simp
    also have "\<dots> = map ?T ?I ! i" by (simp only: ps(2))
    also have "\<dots> = ?T (start_ticket + int i)" using that by simp
    finally show ?thesis .
  qed
  have val: "map (\<lambda>p. ticket_value (ticket_number p)) ps = ?I"
  proof -
    have "map (\<lambda>p. ticket_value (ticket_number p)) ps = map ticket_value (map ticket_number ps)"
      by simp
    also have "\<dots> = map ticket_value (map ?T ?I)" by (simp only: ps(2))
    also have "\<dots> = ?I" by (simp add: o_def ticket_of_zfill ticket_value_zfill_decimal)
    finally show ?thesis .
  qed
  have img: "ticket_number ` set ps = ?T ` {start_ticket..start_ticket + count - 1}"
    using arg_cong [OF ps(2), of set] by simp
  have dist: "distinct (map ticket_number ps)"
    using inj_ticket_of [of count start_ticket]
    by (simp add: ps(2) distinct_map inj_on_def)
  from ps(1) len nth val img dist show ?thesis
    unfolding ticket_of_def Let_def by blast
qed

theorem generate_participants_tickets_witness:
  "(0::int) \<le> 3 \<and> fits 8 \<and> fits (8 + 3 - 1) \<and>
   (\<exists>ps r'. generate_participants 3 8 (\<lambda>_. 0) = Inr (ps, r') \<and>
      map ticket_number ps = [''08'', ''09'', ''10''])"
proof -
  have fit: "fits 8" "fits (8 + 3 - 1)" by (simp_all add: fits_small)
  then obtain ps r' where ps: "generate_participants 3 8 (\<lambda>_. 0) = Inr (ps, r')"
    "length ps = nat 3"
    "ticket_number ` set ps = ticket_of 3 8 ` {8..8 + 3 - 1}"
    "map (\<lambda>p. ticket_value (ticket_number p)) ps = [8..8 + 3 - 1]"
    using generate_participants_tickets [of 3 8 "\<lambda>_. 0"] by auto
  obtain qs where qs: "generate_participants 3 8 (\<lambda>_. 0) = Inr (qs, \<lambda>k. 0)"
    "map ticket_number qs = map (ticket_of 3 8) [8..8 + 3 - 1]"
    using generate_participants_result [of 3 8 "\<lambda>_. 0"] fit by auto
  have "map (ticket_of 3 8) [8..8 + 3 - 1] = [''08'', ''09'', ''10'']"
    by (simp add: ticket_of_def str_eval)
  with ps(1) qs fit show ?thesis by simp
qed

subsection \<open>Claim C2: the width of the tickets\<close>

lemma length_decimal_mono:
  "0 \<le> a \<Longrightarrow> a \<le> b \<Longrightarrow> length (decimal_string a) \<le> length (decimal_string b)"
  by (simp add: decimal_string_def str_nat_length_mono)

lemma length_ticket_of:
  assumes "0 \<le> k" and "k \<le> start_ticket + count - 1"
  shows "length (ticket_of count start_ticket k) =
     length (decimal_string (start_ticket + count - 1))"
  using length_decimal_mono [OF assms] by (simp add: ticket_of_zfill length_zfill)

lemma decimal_string_bounds:
  assumes "1 \<le> n"
  shows "10 ^ (length (decimal_string n) - 1) \<le> n \<and> n < 10 ^ length (decimal_string n)"
proof -
  have pos: "0 < nat n" using assms by simp
  have "int (10 ^ (length (str_nat (nat n)) - 1)) \<le> int (nat n)"
    using str_nat_lower [OF pos] by (simp only: of_nat_le_iff)
  moreover have "int (nat n) < int (10 ^ length (str_nat (nat n)))"
    using str_nat_upper [of "nat n"] by (simp only: of_nat_less_iff)
  ultimately show ?thesis using assms by (simp add: decimal_string_def)
qed

text \<open>C2. For every \<open>count \<ge> 1\<close> and \<open>start_ticket \<ge> 1\<close>, every ticket number of a batch
  returned by \<open>generate_participants\<close> has the same length \<open>d\<close>, the length of the decimal
  string of the last ticket number \<open>start_ticket + count - 1\<close>; and \<open>d\<close> is the number of
  decimal digits of that number: \<open>10 ^ (d - 1) \<le> start_ticket + count - 1 < 10 ^ d\<close>. A
  batch is returned, and is not empty, whenever the last ticket number has at most 4300
  digits.\<close>

theorem ticket_number_width:
  assumes "1 \<le> count" and "1 \<le> start_ticket"
  shows "(fits (start_ticket + count - 1) \<longrightarrow>
       (\<exists>ps r'. generate_participants count start_ticket r = Inr (ps, r'))) \<and>
     (\<forall>ps r'. generate_participants count start_ticket r = Inr (ps, r') \<longrightarrow>
        ps \<noteq> [] \<and>
        (\<forall>p \<in> set ps.
           length (ticket_number p) = length (decimal_string (start_ticket + count - 1))) \<and>
        10 ^ (length (decimal_string (start_ticket + count - 1)) - 1)
          \<le> start_ticket + count - 1 \<and>
        start_ticket + count - 1 < 10 ^ length (decimal_string (start_ticket + count - 1)))"
proof (intro conjI impI allI)
  assume last: "fits (start_ticket + count - 1)"
  have "fits 1" by (simp add: fits_small)
  from this last have "fits start_ticket"
    by (rule fits_between) (use assms in simp_all)
  with last show "\<exists>ps r'. generate_participants count start_ticket r = Inr (ps, r')"
    using generate_participants_result [of count start_ticket r] by blast
next
  fix ps r'
  assume g: "generate_participants count start_ticket r = Inr (ps, r')"
  from generate_participants_Inr [OF g]
  have tickets: "map ticket_number ps =
       map (ticket_of count start_ticket) [start_ticket..start_ticket + count - 1]"
    by simp
  have "length (map ticket_number ps) =
      length (map (ticket_of count start_ticket) [start_ticket..start_ticket + count - 1])"
    by (simp only: tickets)
  then have "length ps = nat count" by simp
  with assms(1) show "ps \<noteq> []" by auto
  show "\<forall>p \<in> set ps.
      length (ticket_number p) = length (decimal_string (start_ticket + count - 1))"
  proof
    fix p assume "p \<in> set ps"
    then have "ticket_number p \<in> set (map ticket_number ps)" by simp
    then have "ticket_number p \<in>
        ticket_of count start_ticket ` {start_ticket..start_ticket + count - 1}"
      by (simp only: tickets set_map set_upto)
    then obtain k where k: "start_ticket \<le> k" "k \<le> start_ticket + count - 1"
        "ticket_number p = ticket_of count start_ticket k"
      by auto
    from k(1) assms(2) have "0 \<le> k" by simp
    with k show "length (ticket_number p) = length (decimal_string (start_ticket + count - 1))"
      by (simp add: length_ticket_of)
  qed
  have "1 \<le> start_ticket + count - 1" using assms by simp
  from decimal_string_bounds [OF this]
  show "10 ^ (length (decimal_string (start_ticket + count - 1)) - 1)
          \<le> start_ticket + count - 1"
    and "start_ticket + count - 1 < 10 ^ length (decimal_string (start_ticket + count - 1))"
    by simp_all
qed

theorem ticket_number_width_witness:
  "(1::int) \<le> 3 \<and> (1::int) \<le> 8 \<and> fits (8 + 3 - 1) \<and>
   (\<exists>ps r'. generate_participants 3 8 (\<lambda>_. 0) = Inr (ps, r') \<and> ps \<noteq> [] \<and>
     (\<forall>p \<in> set ps. length (ticket_number p) = 2))"
proof -
  have fit: "fits (8 + 3 - 1)" by (simp add: fits_small)
  have len: "length (decimal_string (8 + 3 - 1)) = 2" by (simp add: str_eval)
  have w: "(fits (8 + 3 - 1) \<longrightarrow>
       (\<exists>ps r'. generate_participants 3 8 (\<lambda>_. 0) = Inr (ps, r'))) \<and>
     (\<forall>ps r'. generate_participants 3 8 (\<lambda>_. 0) = Inr (ps, r') \<longrightarrow>
        ps \<noteq> [] \<and>
        (\<forall>p \<in> set ps. length (ticket_number p) = length (decimal_string (8 + 3 - 1))))"
    using ticket_number_width [of 3 8 "\<lambda>_. 0"] by simp
  with fit obtain ps r' where "generate_participants 3 8 (\<lambda>_. 0) = Inr (ps, r')" by blast
  with w len fit show ?thesis by auto
qed

subsection \<open>Claim C8: the names come from the tables\<close>

text \<open>C8. For every \<open>count\<close> and \<open>start_ticket\<close>, every record of a batch that
  \<open>generate_participants\<close> returns has its \<open>first\<close> field in the table \<open>first_names\<close> and its
  \<open>last\<close> field in the table \<open>last_names\<close>. A batch is returned whenever \<open>count \<le> 0\<close> or
  \<open>start_ticket\<close> and \<open>start_ticket + count - 1\<close> have at most 4300 digits.\<close>

theorem names_from_tables:
  "(count \<le> 0 \<or> (fits start_ticket \<and> fits (start_ticket + count - 1)) \<longrightarrow>
      (\<exists>ps r'. generate_participants count start_ticket r = Inr (ps, r'))) \<and>
   (\<forall>ps r'. generate_participants count start_ticket r = Inr (ps, r') \<longrightarrow>
      (\<forall>p \<in> set ps. first p \<in> set first_names \<and> last' p \<in> set last_names))"
proof (intro conjI impI allI)
  assume "count \<le> 0 \<or> (fits start_ticket \<and> fits (start_ticket + count - 1))"
  from generate_participants_result [OF this, of r]
  show "\<exists>ps r'. generate_participants count start_ticket r = Inr (ps, r')" by blast
next
  fix ps r'
  assume "generate_participants count start_ticket r = Inr (ps, r')"
  from generate_participants_Inr [OF this]
  show "\<forall>p \<in> set ps. first p \<in> set first_names \<and> last' p \<in> set last_names" by simp
qed

theorem names_from_tables_witness:
  "fits 1 \<and> fits (1 + 2 - 1) \<and>
   (\<exists>ps r'. generate_participants 2 1 (\<lambda>_. 0) = Inr (ps, r') \<and> length ps = 2 \<and>
     (\<forall>p \<in> set ps. first p \<in> set first_names \<and> last' p \<in> set last_names))"
proof -
  have fit: "fits 1" "fits (1 + 2 - 1)" by (simp_all add: fits_small)
  have w: "(\<exists>ps r'. generate_participants 2 1 (\<lambda>_. 0) = Inr (ps, r')) \<and>
   (\<forall>ps r'. generate_participants 2 1 (\<lambda>_. 0) = Inr (ps, r') \<longrightarrow>
      (\<forall>p \<in> set ps. first p \<in> set first_names \<and> last' p \<in> set last_names))"
    using names_from_tables [of 2 1 "\<lambda>_. 0"] fit by simp
  then obtain ps r' where ps: "generate_participants 2 1 (\<lambda>_. 0) = Inr (ps, r')"
    "\<forall>p \<in> set ps. first p \<in> set first_names \<and> last' p \<in> set last_names"
    by blast
  obtain qs where qs: "generate_participants 2 1 (\<lambda>_. 0) = Inr (qs, \<lambda>k. 0)"
     "map ticket_number qs = map (ticket_of 2 1) [1..1 + 2 - 1]"
    using generate_participants_result [of 2 1 "\<lambda>_. 0"] fit by auto
  have "length (map ticket_number qs) = length (map (ticket_of 2 1) [1..1 + 2 - 1])"
    by (simp only: qs(2))
  then have "length qs = 2" by simp
  moreover have "qs = ps" using ps(1) qs(1) by simp
  ultimately show ?thesis using ps fit by blast
qed

subsection \<open>The writer against RFC 4180\<close>

lemmas dialect_defs = delimiter_def quotechar_def CR_def LF_def lineterminator_def

lemma join_append_data_eq:
  "join_append_data cs out q = (out @ double_quotes cs, q \<or> needs_quoting cs)"
proof (induction cs arbitrary: out q)
  case Nil
  show ?case by (simp add: double_quotes_def needs_quoting_def)
next
  case (Cons c cs)
  show ?case
    by (auto simp add: Cons.IH dialect_defs double_quotes_def needs_quoting_def)
qed

lemma double_quotes_plain: "\<not> needs_quoting s \<Longrightarrow> double_quotes s = s"
  by (induction s) (auto simp add: double_quotes_def needs_quoting_def)

lemma join_append_eq: "join_append s = rfc4180_field s"
  by (simp add: join_append_def join_append_data_eq rfc4180_field_def quotechar_def
      double_quotes_plain)

lemma writerow_three:
  "writerow [a, b, c] =
     rfc4180_field a @ '','' @ rfc4180_field b @ '','' @ rfc4180_field c @ [CHR 0x0D, CHR 0x0A]"
  by (simp add: writerow_def join_append_eq dialect_defs)

lemma writerow_participant: "writerow (dict_to_list p) = rfc4180_row p"
  by (simp add: dict_to_list_def writerow_three rfc4180_row_def)

lemma rfc4180_field_plain: "\<not> needs_quoting s \<Longrightarrow> rfc4180_field s = s"
  by (simp add: rfc4180_field_def)

lemma writeheader_eq: "writeheader f = f @ ''first,last,ticket_number'' @ [CHR 0x0D, CHR 0x0A]"
  by (simp add: writeheader_def fieldnames_def writerow_three rfc4180_field_def needs_quoting_def)

lemma writerows_eq: "writerows ps f = f @ concat (map rfc4180_row ps)"
  by (induction ps arbitrary: f) (simp_all add: writerow_participant)

lemma files_write_csv:
  "files (write_csv filename participants w) filename =
     Some (''first,last,ticket_number'' @ [CHR 0x0D, CHR 0x0A] @ concat (map rfc4180_row participants))"
  by (simp add: write_csv_def writerows_eq writeheader_eq)

subsection \<open>Claim C4: the file written by \<open>write_csv\<close>\<close>

text \<open>C4. For every sequence of participants, the file that \<open>write_csv\<close> writes under the
  given name is the header row \<open>first,last,ticket_number\<close> followed by one row for each
  participant, in the order of the sequence. A row is the three fields of the
  participant, separated by commas and ended by CR LF, each field quoted in the style of
  RFC 4180: a field with a comma, a quote character, a CR or an LF stands between quotes
  with its quotes doubled, and any other field stands unchanged.\<close>

theorem write_csv_file:
  "files (write_csv filename participants w) filename =
     Some (''first,last,ticket_number'' @ [CHR 0x0D, CHR 0x0A] @
           concat (map (\<lambda>p. rfc4180_field (first p) @ '','' @ rfc4180_field (last' p) @ '','' @
                            rfc4180_field (ticket_number p) @ [CHR 0x0D, CHR 0x0A])
                       participants)) \<and>
   rfc4180_field s =
     (if CHR '','' \<in> set s \<or> CHR 0x22 \<in> set s \<or> CHR 0x0D \<in> set s \<or> CHR 0x0A \<in> set s
      then [CHR 0x22] @ concat (map (\<lambda>c. if c = CHR 0x22 then [c, c] else [c]) s) @ [CHR 0x22]
      else s)"
proof -
  have row: "rfc4180_row =
      (\<lambda>p. rfc4180_field (first p) @ '','' @ rfc4180_field (last' p) @ '','' @
                rfc4180_field (ticket_number p) @ [CHR 0x0D, CHR 0x0A])"
    by (rule ext) (simp add: rfc4180_row_def)
  have a: "files (write_csv filename participants w) filename =
     Some (''first,last,ticket_number'' @ [CHR 0x0D, CHR 0x0A] @
           concat (map (\<lambda>p. rfc4180_field (first p) @ '','' @ rfc4180_field (last' p) @ '','' @
                            rfc4180_field (ticket_number p) @ [CHR 0x0D, CHR 0x0A])
                       participants))"
    using files_write_csv [of filename participants w] by (simp only: row)
  have b: "rfc4180_field s =
     (if CHR '','' \<in> set s \<or> CHR 0x22 \<in> set s \<or> CHR 0x0D \<in> set s \<or> CHR 0x0A \<in> set s
      then [CHR 0x22] @ concat (map (\<lambda>c. if c = CHR 0x22 then [c, c] else [c]) s) @ [CHR 0x22]
      else s)"
    by (simp add: rfc4180_field_def needs_quoting_def double_quotes_def)
  from a b show ?thesis by (rule conjI)
qed

subsection \<open>Claims C7 and C10: the empty batch\<close>

text \<open>C7. For \<open>count = 0\<close> and any \<open>start_ticket\<close>, \<open>generate_participants\<close> returns the empty
  sequence without error and leaves the random generator as it was, so the body of its
  loop, with the computation of the padding width, is not run; and \<open>write_csv\<close> of the
  empty sequence writes a file that is the header row alone.\<close>

theorem count_zero_header_only:
  "generate_participants 0 start_ticket r = Inr ([], r) \<and>
   files (write_csv filename [] w) filename =
     Some (''first,last,ticket_number'' @ [CHR 0x0D, CHR 0x0A])"
  by (simp add: generate_participants_nonpositive files_write_csv)

text \<open>C10. For every \<open>count \<le> 0\<close>, negative counts included, and any \<open>start_ticket\<close>,
  \<open>generate_participants\<close> returns the empty sequence without error, and writing the batch
  it returns gives a file that is the header row alone.\<close>

theorem nonpositive_count_empty:
  assumes "count \<le> 0"
  shows "\<exists>ps r'. generate_participants count start_ticket r = Inr (ps, r') \<and> ps = [] \<and> r' = r \<and>
     files (write_csv filename ps w) filename =
       Some (''first,last,ticket_number'' @ [CHR 0x0D, CHR 0x0A])"
  using assms by (simp add: generate_participants_nonpositive files_write_csv)

theorem nonpositive_count_empty_witness:
  "(- 5 :: int) \<le> 0 \<and>
   (\<exists>ps r'. generate_participants (- 5) 7 (\<lambda>_. 0) = Inr (ps, r') \<and> ps = [] \<and>
      files (write_csv ''x.csv'' ps \<lparr>random = \<lambda>_. 0, files = Map.empty, stdout = []\<rparr>) ''x.csv'' =
        Some (''first,last,ticket_number'' @ [CHR 0x0D, CHR 0x0A]))"
  using nonpositive_count_empty [of "- 5" 7 "\<lambda>_. 0" "''x.csv''"
      "\<lparr>random = \<lambda>_. 0, files = Map.empty, stdout = []\<rparr>"]
  by auto

subsection \<open>Claim C6: a negative count\<close>

text \<open>C6 says that a negative count makes \<open>generate_participants\<close> fail with an
  \<open>InvalidArgument\<close> error. The function checks nothing: \<^verbatim>\<open>range\<close> of a negative count is
  empty, so the result is the empty sequence.\<close>

theorem negative_count_counterexample:
  "generate_participants (- 1) 1 (\<lambda>_. 0) = Inr ([], \<lambda>_. 0)"
  by (simp add: generate_participants_nonpositive)

text \<open>C6, amended. A negative count is no error: \<open>generate_participants\<close> returns the empty
  sequence, with the random generator as it was. Its only error condition is a
  \<open>count \<ge> 1\<close> with \<open>start_ticket\<close> or \<open>start_ticket + count - 1\<close> of more than 4300 decimal
  digits: then, and only then, it fails, with \<^verbatim>\<open>ValueError\<close>, and returns no records.\<close>

theorem generate_participants_errors:
  "(count < 0 \<longrightarrow> generate_participants count start_ticket r = Inr ([], r)) \<and>
   (generate_participants count start_ticket r = Inl ValueError \<longleftrightarrow>
      1 \<le> count \<and> (\<not> fits start_ticket \<or> \<not> fits (start_ticket + count - 1))) \<and>
   generate_participants count start_ticket r \<noteq> Inl IndexError"
proof (cases "1 \<le> count \<and> (\<not> fits start_ticket \<or> \<not> fits (start_ticket + count - 1))")
  case True
  then have "generate_participants count start_ticket r = Inl ValueError"
    by (simp add: generate_participants_error)
  with True show ?thesis by simp
next
  case False
  then have "count \<le> 0 \<or> (fits start_ticket \<and> fits (start_ticket + count - 1))" by auto
  from generate_participants_result [OF this, of r]
  obtain ps r' where "generate_participants count start_ticket r = Inr (ps, r')" by blast
  with False show ?thesis by (auto simp add: generate_participants_nonpositive)
qed

theorem generate_participants_errors_witness:
  "(- 1 :: int) < 0 \<and> generate_participants (- 1) 1 (\<lambda>k. k) = Inr ([], \<lambda>k. k) \<and>
   (1::int) \<le> 1 \<and> \<not> fits (- (10 ^ int_max_str_digits)) \<and>
   generate_participants 1 (- (10 ^ int_max_str_digits)) (\<lambda>k. k) = Inl ValueError"
  using generate_participants_errors [of "- 1" 1 "\<lambda>k. k"]
    generate_participants_errors [of 1 "- (10 ^ int_max_str_digits)" "\<lambda>k. k"]
  by (simp add: not_fits_limit)

subsection \<open>Claim C9: the name tables\<close>

lemma names_plain:
  "\<forall>s \<in> set first_names \<union> set last_names. s \<noteq> [] \<and> \<not> needs_quoting s"
  by (simp add: first_names_def last_names_def needs_quoting_def)

lemma set_zfill: "set (zfill s w) \<subseteq> insert (CHR ''0'') (set s)"
  by (cases s) (auto simp add: zfill_def Let_def)

lemma set_decimal_string:
  "c \<in> set (decimal_string k) \<Longrightarrow> c = CHR ''-'' \<or> (\<exists>d<10. c = digit_char d)"
  by (auto simp add: decimal_string_def dest: str_nat_digits split: if_splits)

lemma ticket_plain: "\<not> needs_quoting (zfill (decimal_string k) w)"
proof -
  have "c \<noteq> CHR '','' \<and> c \<noteq> CHR 0x22 \<and> c \<noteq> CHR 0x0D \<and> c \<noteq> CHR 0x0A"
    if "c \<in> set (zfill (decimal_string k) w)" for c
  proof -
    from that set_zfill [of "decimal_string k" w]
    have "c = CHR ''0'' \<or> c \<in> set (decimal_string k)" by auto
    then consider "c = CHR ''0''" | "c = CHR ''-''" | d where "d < 10" "c = digit_char d"
      using set_decimal_string by blast
    then show ?thesis
    proof cases
      case 3
      then show ?thesis using digit_char_not_special [of d] by simp
    qed simp_all
  qed
  then show ?thesis unfolding needs_quoting_def by blast
qed

lemma join_append_plain: "\<not> needs_quoting s \<Longrightarrow> join_append s = s"
  by (simp add: join_append_eq rfc4180_field_plain)

text \<open>C9 says that each of the two tables has exactly 56 entries. The table of last names
  has 55.\<close>

theorem last_names_counterexample: "length last_names \<noteq> 56"
  by (simp add: length_last_names)

text \<open>C9, amended. The table of first names has 56 entries and the table of last names
  has 55; every entry is non-empty and contains no comma, no quote character and no line
  break. So \<open>choice\<close> from either table never fails, and in every record of a batch that
  \<open>generate_participants\<close> returns the writer leaves each of the three fields as it is,
  without quoting or escaping.\<close>

theorem name_tables_safe:
  "length first_names = 56 \<and> length last_names = 55 \<and>
   (\<forall>s \<in> set first_names \<union> set last_names. s \<noteq> [] \<and>
      CHR '','' \<notin> set s \<and> CHR 0x22 \<notin> set s \<and> CHR 0x0D \<notin> set s \<and> CHR 0x0A \<notin> set s) \<and>
   (\<exists>x r'. choice first_names r = Inr (x, r')) \<and>
   (\<exists>x r'. choice last_names r = Inr (x, r')) \<and>
   (\<forall>ps r'. generate_participants count start_ticket r = Inr (ps, r') \<longrightarrow>
      (\<forall>p \<in> set ps. join_append (first p) = first p \<and> join_append (last' p) = last' p \<and>
         join_append (ticket_number p) = ticket_number p))"
proof -
  have tables: "\<forall>s \<in> set first_names \<union> set last_names. s \<noteq> [] \<and>
      CHR '','' \<notin> set s \<and> CHR 0x22 \<notin> set s \<and> CHR 0x0D \<notin> set s \<and> CHR 0x0A \<notin> set s"
    using names_plain unfolding needs_quoting_def by blast
  have c1: "\<exists>x r'. choice first_names r = Inr (x, r')"
    using choice_nonempty [OF first_names_not_Nil, of r] by blast
  have c2: "\<exists>x r'. choice last_names r = Inr (x, r')"
    using choice_nonempty [OF last_names_not_Nil, of r] by blast
  have gen: "\<forall>ps r'. generate_participants count start_ticket r = Inr (ps, r') \<longrightarrow>
      (\<forall>p \<in> set ps. join_append (first p) = first p \<and> join_append (last' p) = last' p \<and>
         join_append (ticket_number p) = ticket_number p)"
  proof (intro allI impI ballI)
    fix ps r' p
    assume g: "generate_participants count start_ticket r = Inr (ps, r')" and p: "p \<in> set ps"
    from generate_participants_Inr [OF g]
    have ps: "map ticket_number ps =
         map (ticket_of count start_ticket) [start_ticket..start_ticket + count - 1]"
        "\<forall>p \<in> set ps. first p \<in> set first_names \<and> last' p \<in> set last_names"
      by simp_all
    from p ps(2) names_plain have "\<not> needs_quoting (first p)" "\<not> needs_quoting (last' p)"
      by auto
    moreover have "ticket_number p \<in> set (map ticket_number ps)" using p by simp
    then have "\<exists>k. ticket_number p = ticket_of count start_ticket k"
      unfolding ps(1) by auto
    then have "\<not> needs_quoting (ticket_number p)"
      by (auto simp add: ticket_of_zfill ticket_plain)
    ultimately show "join_append (first p) = first p \<and> join_append (last' p) = last' p \<and>
         join_append (ticket_number p) = ticket_number p"
      by (simp add: join_append_plain)
  qed
  from length_first_names length_last_names tables c1 c2 gen show ?thesis
    by (intro conjI)
qed

theorem name_tables_safe_witness:
  "length last_names = 55 \<and> ''Diaz'' \<in> set last_names \<and> ''Diaz'' \<noteq> [] \<and>
   CHR '','' \<notin> set ''Diaz'' \<and>
   (\<exists>ps r'. generate_participants 1 7 (\<lambda>_. 0) = Inr (ps, r') \<and>
      (\<forall>p \<in> set ps. join_append (first p) = first p))"
proof -
  have "''Diaz'' \<in> set first_names \<union> set last_names" by (simp add: last_names_def)
  moreover have "fits 7" "fits (7 + 1 - 1)" by (simp_all add: fits_small)
  then obtain ps where "generate_participants 1 7 (\<lambda>_. 0) = Inr (ps, \<lambda>k. 0)"
    using generate_participants_result [of 1 7 "\<lambda>_. 0"] by auto
  ultimately show ?thesis
    using name_tables_safe [of "\<lambda>_. 0" 1 7] by (auto simp add: last_names_def)
qed

subsection \<open>Claim C5: the five batches\<close>

lemma generate_participants_values:
  assumes "fits start_ticket" and "fits (start_ticket + count - 1)"
  shows "\<exists>ps. generate_participants count start_ticket r =
           Inr (ps, \<lambda>k. r (k + 2 * nat count)) \<and>
        length ps = nat count \<and>
        map (\<lambda>p. ticket_value (ticket_number p)) ps = [start_ticket..start_ticket + count - 1]"
proof -
  obtain ps where ps:
    "generate_participants count start_ticket r = Inr (ps, \<lambda>k. r (k + 2 * nat count))"
    "map ticket_number ps =
       map (ticket_of count start_ticket) [start_ticket..start_ticket + count - 1]"
    using generate_participants_result [of count start_ticket r] assms by blast
  have "length (map ticket_number ps) =
      length (map (ticket_of count start_ticket) [start_ticket..start_ticket + count - 1])"
    by (simp only: ps(2))
  then have len: "length ps = nat count" by simp
  have "map (\<lambda>p. ticket_value (ticket_number p)) ps = map ticket_value (map ticket_number ps)"
    by simp
  also have "\<dots> = [start_ticket..start_ticket + count - 1]"
    by (simp add: ps(2) o_def ticket_of_zfill ticket_value_zfill_decimal)
  finally show ?thesis using ps(1) len by blast
qed

lemma format_thousands_values:
  "format_thousands 5000 = ''5,000''" "format_thousands 10000 = ''10,000''"
  "format_thousands 25000 = ''25,000''" "format_thousands 50000 = ''50,000''"
  "format_thousands 100000 = ''100,000''"
  by (simp_all add: format_thousands_def str_eval)


lemma random_write_csv: "random (write_csv filename participants w) = random w"
  by (simp add: write_csv_def)

text \<open>C5. \<open>main\<close> is the batch driver run on the table of exactly five batches
  \<open>(raffle-5k.csv, 5000, 10001)\<close>, \<open>(raffle-10k.csv, 10000, 20001)\<close>,
  \<open>(raffle-25k.csv, 25000, 50001)\<close>, \<open>(raffle-50k.csv, 50000, 100001)\<close> and
  \<open>(raffle-100k.csv, 100000, 200001)\<close>, in this order, and the last ticket numbers of the
  batches are 15000, 30000, 75000, 150000 and 300000. It ends without error: it prints
  one line for each batch in this order and the two closing lines, and it writes the five
  files, whose records carry the tickets 10001 to 15000, 20001 to 30000, 50001 to 75000,
  100001 to 150000 and 200001 to 300000.\<close>

theorem main_five_batches:
  "main w = batch_driver w \<and>
   batches =
     [(''raffle-5k.csv'', 5000, 10001), (''raffle-10k.csv'', 10000, 20001),
      (''raffle-25k.csv'', 25000, 50001), (''raffle-50k.csv'', 50000, 100001),
      (''raffle-100k.csv'', 100000, 200001)] \<and>
   map (\<lambda>(filename, count, start_ticket). start_ticket + count - 1) batches =
     [15000, 30000, 75000, 150000, 300000] \<and>
   (\<exists>w' ps1 ps2 ps3 ps4 ps5.
      main w = Inr w' \<and>
      stdout w' = stdout w @
        [check_mark @ '' Generated raffle-5k.csv: 5,000 entries'',
         check_mark @ '' Generated raffle-10k.csv: 10,000 entries'',
         check_mark @ '' Generated raffle-25k.csv: 25,000 entries'',
         check_mark @ '' Generated raffle-50k.csv: 50,000 entries'',
         check_mark @ '' Generated raffle-100k.csv: 100,000 entries'',
         [LF] @ party_popper @ '' All sample CSV files generated successfully!'',
         ''Files are located in: apps/spinner-extension/samples/''] \<and>
      files w' = (files w)
        (''raffle-5k.csv'' \<mapsto> csv_text ps1, ''raffle-10k.csv'' \<mapsto> csv_text ps2,
         ''raffle-25k.csv'' \<mapsto> csv_text ps3, ''raffle-50k.csv'' \<mapsto> csv_text ps4,
         ''raffle-100k.csv'' \<mapsto> csv_text ps5) \<and>
      map (\<lambda>p. ticket_value (ticket_number p)) ps1 = [10001..15000] \<and>
      map (\<lambda>p. ticket_value (ticket_number p)) ps2 = [20001..30000] \<and>
      map (\<lambda>p. ticket_value (ticket_number p)) ps3 = [50001..75000] \<and>
      map (\<lambda>p. ticket_value (ticket_number p)) ps4 = [100001..150000] \<and>
      map (\<lambda>p. ticket_value (ticket_number p)) ps5 = [200001..300000])"
proof -
  have fit1: "fits 10001" "fits (10001 + 5000 - 1)" by (simp_all add: fits_small)
  obtain ps1 r1 where g1: "generate_participants 5000 10001 (random w) = Inr (ps1, r1)"
    and l1: "length ps1 = nat 5000"
    and v1: "map (\<lambda>p. ticket_value (ticket_number p)) ps1 = [10001..10001 + 5000 - 1]"
    using generate_participants_values [OF fit1, of "random w"] by blast
  have fit2: "fits 20001" "fits (20001 + 10000 - 1)" by (simp_all add: fits_small)
  obtain ps2 r2 where g2: "generate_participants 10000 20001 r1 = Inr (ps2, r2)"
    and l2: "length ps2 = nat 10000"
    and v2: "map (\<lambda>p. ticket_value (ticket_number p)) ps2 = [20001..20001 + 10000 - 1]"
    using generate_participants_values [OF fit2, of r1] by blast
  have fit3: "fits 50001" "fits (50001 + 25000 - 1)" by (simp_all add: fits_small)
  obtain ps3 r3 where g3: "generate_participants 25000 50001 r2 = Inr (ps3, r3)"
    and l3: "length ps3 = nat 25000"
    and v3: "map (\<lambda>p. ticket_value (ticket_number p)) ps3 = [50001..50001 + 25000 - 1]"
    using generate_participants_values [OF fit3, of r2] by blast
  have fit4: "fits 100001" "fits (100001 + 50000 - 1)" by (simp_all add: fits_small)
  obtain ps4 r4 where g4: "generate_participants 50000 100001 r3 = Inr (ps4, r4)"
    and l4: "length ps4 = nat 50000"
    and v4: "map (\<lambda>p. ticket_value (ticket_number p)) ps4 = [100001..100001 + 50000 - 1]"
    using generate_participants_values [OF fit4, of r3] by blast
  have fit5: "fits 200001" "fits (200001 + 100000 - 1)" by (simp_all add: fits_small)
  obtain ps5 r5 where g5: "generate_participants 100000 200001 r4 = Inr (ps5, r5)"
    and l5: "length ps5 = nat 100000"
    and v5: "map (\<lambda>p. ticket_value (ticket_number p)) ps5 = [200001..200001 + 100000 - 1]"
    using generate_participants_values [OF fit5, of r4] by blast
  define w5 where "w5 =
    write_csv ''raffle-100k.csv'' ps5
     ((write_csv ''raffle-50k.csv'' ps4
       ((write_csv ''raffle-25k.csv'' ps3
         ((write_csv ''raffle-10k.csv'' ps2
           ((write_csv ''raffle-5k.csv'' ps1 (w\<lparr>random := r1\<rparr>))\<lparr>random := r2\<rparr>))
          \<lparr>random := r3\<rparr>))\<lparr>random := r4\<rparr>))\<lparr>random := r5\<rparr>)"
  define w' where "w' = w5\<lparr>stdout := stdout w5 @
       [[LF] @ party_popper @ '' All sample CSV files generated successfully!'',
        ''Files are located in: apps/spinner-extension/samples/'']\<rparr>"
  have m: "main w = Inr w'"
    by (simp add: main_def Let_def g1 g2 g3 g4 g5 random_write_csv w'_def w5_def)
  have d: "batch_driver w = Inr w'"
    by (simp add: batch_driver_def batches_def g1 g2 g3 g4 g5 random_write_csv w'_def w5_def)
  have out: "stdout w' = stdout w @
        [check_mark @ '' Generated raffle-5k.csv: 5,000 entries'',
         check_mark @ '' Generated raffle-10k.csv: 10,000 entries'',
         check_mark @ '' Generated raffle-25k.csv: 25,000 entries'',
         check_mark @ '' Generated raffle-50k.csv: 50,000 entries'',
         check_mark @ '' Generated raffle-100k.csv: 100,000 entries'',
         [LF] @ party_popper @ '' All sample CSV files generated successfully!'',
         ''Files are located in: apps/spinner-extension/samples/'']"
    by (simp add: w'_def w5_def write_csv_def l1 l2 l3 l4 l5 format_thousands_values)
  have fs: "files w' = (files w)
        (''raffle-5k.csv'' \<mapsto> csv_text ps1, ''raffle-10k.csv'' \<mapsto> csv_text ps2,
         ''raffle-25k.csv'' \<mapsto> csv_text ps3, ''raffle-50k.csv'' \<mapsto> csv_text ps4,
         ''raffle-100k.csv'' \<mapsto> csv_text ps5)"
    by (simp add: w'_def w5_def write_csv_def writerows_eq writeheader_eq csv_text_def)
  have b: "batches =
     [(''raffle-5k.csv'', 5000, 10001), (''raffle-10k.csv'', 10000, 20001),
      (''raffle-25k.csv'', 25000, 50001), (''raffle-50k.csv'', 50000, 100001),
      (''raffle-100k.csv'', 100000, 200001)]"
    by (simp add: batches_def)
  have lastt: "map (\<lambda>(filename, count, start_ticket). start_ticket + count - 1) batches =
     [15000, 30000, 75000, 150000, 300000]"
    by (simp add: batches_def)
  have v: "map (\<lambda>p. ticket_value (ticket_number p)) ps1 = [10001..15000]"
      "map (\<lambda>p. ticket_value (ticket_number p)) ps2 = [20001..30000]"
      "map (\<lambda>p. ticket_value (ticket_number p)) ps3 = [50001..75000]"
      "map (\<lambda>p. ticket_value (ticket_number p)) ps4 = [100001..150000]"
      "map (\<lambda>p. ticket_value (ticket_number p)) ps5 = [200001..300000]"
    using v1 v2 v3 v4 v5 by (simp_all del: upto_rec_numeral)
  have ex: "\<exists>w' ps1 ps2 ps3 ps4 ps5.
      main w = Inr w' \<and>
      stdout w' = stdout w @
        [check_mark @ '' Generated raffle-5k.csv: 5,000 entries'',
         check_mark @ '' Generated raffle-10k.csv: 10,000 entries'',
         check_mark @ '' Generated raffle-25k.csv: 25,000 entries'',
         check_mark @ '' Generated raffle-50k.csv: 50,000 entries'',
         check_mark @ '' Generated raffle-100k.csv: 100,000 entries'',
         [LF] @ party_popper @ '' All sample CSV files generated successfully!'',
         ''Files are located in: apps/spinner-extension/samples/''] \<and>
      files w' = (files w)
        (''raffle-5k.csv'' \<mapsto> csv_text ps1, ''raffle-10k.csv'' \<mapsto> csv_text ps2,
         ''raffle-25k.csv'' \<mapsto> csv_text ps3, ''raffle-50k.csv'' \<mapsto> csv_text ps4,
         ''raffle-100k.csv'' \<mapsto> csv_text ps5) \<and>
      map (\<lambda>p. ticket_value (ticket_number p)) ps1 = [10001..15000] \<and>
      map (\<lambda>p. ticket_value (ticket_number p)) ps2 = [20001..30000] \<and>
      map (\<lambda>p. ticket_value (ticket_number p)) ps3 = [50001..75000] \<and>
      map (\<lambda>p. ticket_value (ticket_number p)) ps4 = [100001..150000] \<and>
      map (\<lambda>p. ticket_value (ticket_number p)) ps5 = [200001..300000]"
    apply (rule exI [of _ w'])
    apply (rule exI [of _ ps1])
    apply (rule exI [of _ ps2])
    apply (rule exI [of _ ps3])
    apply (rule exI [of _ ps4])
    apply (rule exI [of _ ps5])
    apply (intro conjI)
    apply (rule m out fs v)+
    done
  have eq: "main w = batch_driver w" by (simp only: m d)
  from eq b lastt ex show ?thesis by (intro conjI)
qed

subsection \<open>Claim C3: reading the written file back\<close>

lemma process_line_append:
  "process_line rd (xs @ ys) =
    (case process_line rd xs of Inl e \<Rightarrow> Inl e | Inr rd' \<Rightarrow> process_line rd' ys)"
  by (induction xs arbitrary: rd) (auto split: sum.splits)

lemma process_line_snoc:
  "process_line rd0 cur = Inr rd \<Longrightarrow>
     process_line rd0 (cur @ [c]) = parse_process_char rd (Some c)"
  by (simp add: process_line_append split: sum.splits)

lemma split_lines_plain:
  "c \<noteq> CR \<Longrightarrow> c \<noteq> LF \<Longrightarrow> split_lines cur (c # t) = split_lines (cur @ [c]) t"
  by simp

lemma quoted_step:
  assumes "process_line rd0 cur = Inr rd" and "pstate rd = IN_QUOTED_FIELD"
  shows "\<exists>rd0' cur'. process_line rd0' cur' = Inr (parse_add_char rd c) \<and>
     (\<forall>t. reader_loop (split_lines cur ((if c = CHR 0x22 then [c, c] else [c]) @ t)) rd0 =
          reader_loop (split_lines cur' t) rd0')"
proof -
  consider (quote) "c = CHR 0x22" | (lf) "c = LF" | (cr) "c = CR"
    | (plain) "c \<noteq> CHR 0x22" "c \<noteq> LF" "c \<noteq> CR" by blast
  then show ?thesis
  proof cases
    case quote
    have "process_line rd0 (cur @ [c, c]) = Inr (parse_add_char rd c)"
      using assms quote
      by (simp add: process_line_append parse_process_char_def parse_add_char_def quotechar_def)
    moreover have "\<forall>t. reader_loop (split_lines cur ([c, c] @ t)) rd0 =
          reader_loop (split_lines (cur @ [c, c]) t) rd0"
      using quote by (simp add: CR_def LF_def)
    ultimately show ?thesis using quote by (intro exI [of _ rd0] exI [of _ "cur @ [c, c]"]) simp
  next
    case lf
    have "process_line (parse_add_char rd c) [] = Inr (parse_add_char rd c)" by simp
    moreover have "reader_loop (split_lines cur ([c] @ t)) rd0 =
          reader_loop (split_lines [] t) (parse_add_char rd c)" for t
      using assms lf
      by (simp add: process_line_append parse_process_char_def parse_add_char_def
          quotechar_def LF_def)
    ultimately show ?thesis using lf
      by (intro exI [of _ "parse_add_char rd c"] exI [of _ "[]"]) (simp add: LF_def)
  next
    case cr
    have "process_line (parse_add_char rd c) [] = Inr (parse_add_char rd c)" by simp
    moreover have "reader_loop (split_lines cur ([c] @ t)) rd0 =
          reader_loop (split_lines [] t) (parse_add_char rd c)" for t
    proof (cases t)
      case Nil
      then show ?thesis using assms cr
        by (simp add: process_line_append parse_process_char_def parse_add_char_def
          quotechar_def LF_def CR_def)
    next
      case (Cons d ds)
      then show ?thesis using assms cr
        by (simp add: process_line_append parse_process_char_def parse_add_char_def
          quotechar_def LF_def CR_def)
    qed
    ultimately show ?thesis using cr
      by (intro exI [of _ "parse_add_char rd c"] exI [of _ "[]"]) (simp add: CR_def)
  next
    case plain
    have "process_line rd0 (cur @ [c]) = Inr (parse_add_char rd c)"
      using assms plain
      by (simp add: process_line_append parse_process_char_def parse_add_char_def quotechar_def)
    moreover have "\<forall>t. reader_loop (split_lines cur ([c] @ t)) rd0 =
          reader_loop (split_lines (cur @ [c]) t) rd0"
      using plain by simp
    ultimately show ?thesis using plain by (intro exI [of _ rd0] exI [of _ "cur @ [c]"]) simp
  qed
qed

lemma quoted_content:
  assumes "process_line rd0 cur = Inr rd" and "pstate rd = IN_QUOTED_FIELD"
  shows "\<exists>rd0' cur'. process_line rd0' cur' = Inr (rd\<lparr>pfield := pfield rd @ f\<rparr>) \<and>
     (\<forall>t. reader_loop (split_lines cur (double_quotes f @ t)) rd0 =
          reader_loop (split_lines cur' t) rd0')"
  using assms
proof (induction f arbitrary: rd0 cur rd)
  case Nil
  then show ?case by (intro exI [of _ rd0] exI [of _ cur]) (simp add: double_quotes_def)
next
  case (Cons c f)
  obtain rd1 cur1 where s: "process_line rd1 cur1 = Inr (parse_add_char rd c)"
    "\<forall>t. reader_loop (split_lines cur ((if c = CHR 0x22 then [c, c] else [c]) @ t)) rd0 =
          reader_loop (split_lines cur1 t) rd1"
    using quoted_step [OF Cons.prems, of c] by blast
  have st: "pstate (parse_add_char rd c) = IN_QUOTED_FIELD"
    using Cons.prems(2) by (simp add: parse_add_char_def)
  obtain rd2 cur2 where r:
    "process_line rd2 cur2 =
       Inr ((parse_add_char rd c)\<lparr>pfield := pfield (parse_add_char rd c) @ f\<rparr>)"
    "\<forall>t. reader_loop (split_lines cur1 (double_quotes f @ t)) rd1 =
          reader_loop (split_lines cur2 t) rd2"
    using Cons.IH [OF s(1) st] by blast
  have "(parse_add_char rd c)\<lparr>pfield := pfield (parse_add_char rd c) @ f\<rparr> =
      rd\<lparr>pfield := pfield rd @ c # f\<rparr>"
    by (simp add: parse_add_char_def)
  moreover have "reader_loop (split_lines cur (double_quotes (c # f) @ t)) rd0 =
      reader_loop (split_lines cur2 t) rd2" for t
  proof -
    have "double_quotes (c # f) @ t =
        (if c = CHR 0x22 then [c, c] else [c]) @ (double_quotes f @ t)"
      by (simp add: double_quotes_def)
    then show ?thesis using s(2) r(2) by (simp only:)
  qed
  ultimately show ?case using r(1) by (intro exI [of _ rd2] exI [of _ cur2]) simp
qed


lemma plain_content:
  assumes "process_line rd0 cur = Inr rd" and "pstate rd = IN_FIELD" and "\<not> needs_quoting f"
  shows "process_line rd0 (cur @ f) = Inr (rd\<lparr>pfield := pfield rd @ f\<rparr>) \<and>
     (\<forall>t. split_lines cur (f @ t) = split_lines (cur @ f) t)"
  using assms
proof (induction f arbitrary: cur rd)
  case Nil
  then show ?case by simp
next
  case (Cons c f)
  from Cons.prems(3) have c: "c \<noteq> CHR '',''" "c \<noteq> CHR 0x22" "c \<noteq> CHR 0x0D" "c \<noteq> CHR 0x0A"
    and f: "\<not> needs_quoting f"
    by (auto simp add: needs_quoting_def)
  have step: "process_line rd0 (cur @ [c]) = Inr (parse_add_char rd c)"
    using Cons.prems(1,2) c
    by (simp add: process_line_append parse_process_char_def dialect_defs)
  have st: "pstate (parse_add_char rd c) = IN_FIELD"
    using Cons.prems(2) by (simp add: parse_add_char_def)
  from Cons.IH [OF step st f]
  have ih: "process_line rd0 ((cur @ [c]) @ f) =
        Inr ((parse_add_char rd c)\<lparr>pfield := pfield (parse_add_char rd c) @ f\<rparr>)"
      "\<forall>t. split_lines (cur @ [c]) (f @ t) = split_lines ((cur @ [c]) @ f) t"
    by blast+
  have "process_line rd0 (cur @ c # f) = Inr (rd\<lparr>pfield := pfield rd @ c # f\<rparr>)"
    using ih(1) by (simp add: parse_add_char_def)
  moreover have "\<forall>t. split_lines cur ((c # f) @ t) = split_lines (cur @ c # f) t"
    using ih(2) c by (simp add: dialect_defs)
  ultimately show ?case by blast
qed

lemma field_body:
  assumes "process_line rd0 cur = Inr rd"
    and "pstate rd = START_FIELD \<or> pstate rd = START_RECORD"
    and "pfield rd = []"
  shows "\<exists>rd0' cur' s.
     process_line rd0' cur' = Inr \<lparr>pstate = s, pfields = pfields rd, pfield = f\<rparr> \<and>
     (s = IN_FIELD \<or> s = QUOTE_IN_QUOTED_FIELD \<or> (f = [] \<and> s = pstate rd)) \<and>
     (\<forall>t. reader_loop (split_lines cur (rfc4180_field f @ t)) rd0 =
          reader_loop (split_lines cur' t) rd0')"
proof (cases "needs_quoting f")
  case True
  let ?rd1 = "rd\<lparr>pstate := IN_QUOTED_FIELD\<rparr>"
  have s1: "process_line rd0 (cur @ [CHR 0x22]) = Inr ?rd1"
    using assms(1,2)
    by (auto simp add: process_line_append parse_process_char_def start_field_def dialect_defs)
  obtain rd2 cur2 where q:
    "process_line rd2 cur2 = Inr (?rd1\<lparr>pfield := pfield ?rd1 @ f\<rparr>)"
    "\<forall>t. reader_loop (split_lines (cur @ [CHR 0x22]) (double_quotes f @ t)) rd0 =
          reader_loop (split_lines cur2 t) rd2"
    using quoted_content [OF s1, of f] by auto
  have s3: "process_line rd2 (cur2 @ [CHR 0x22]) =
      Inr \<lparr>pstate = QUOTE_IN_QUOTED_FIELD, pfields = pfields rd, pfield = f\<rparr>"
    using q(1) assms(3)
    by (cases rd) (simp add: process_line_append parse_process_char_def dialect_defs)
  have "reader_loop (split_lines cur (rfc4180_field f @ t)) rd0 =
          reader_loop (split_lines (cur2 @ [CHR 0x22]) t) rd2" for t
  proof -
    have "split_lines cur (rfc4180_field f @ t) =
        split_lines (cur @ [CHR 0x22]) (double_quotes f @ (CHR 0x22 # t))"
      using True by (simp add: rfc4180_field_def dialect_defs)
    moreover have "split_lines cur2 (CHR 0x22 # t) = split_lines (cur2 @ [CHR 0x22]) t"
      by (simp add: dialect_defs)
    ultimately show ?thesis using q(2) by simp
  qed
  with s3 show ?thesis by blast
next
  case False
  show ?thesis
  proof (cases f)
    case Nil
    have "process_line rd0 cur = Inr \<lparr>pstate = pstate rd, pfields = pfields rd, pfield = f\<rparr>"
      using assms(1,3) Nil by (cases rd) simp
    moreover have "\<forall>t. reader_loop (split_lines cur (rfc4180_field f @ t)) rd0 =
          reader_loop (split_lines cur t) rd0"
      using Nil by (simp add: rfc4180_field_def needs_quoting_def)
    ultimately show ?thesis using Nil by blast
  next
    case (Cons c g)
    from False Cons have c: "c \<noteq> CHR '',''" "c \<noteq> CHR 0x22" "c \<noteq> CHR 0x0D" "c \<noteq> CHR 0x0A"
      and g: "\<not> needs_quoting g"
      by (auto simp add: needs_quoting_def)
    let ?rd1 = "\<lparr>pstate = IN_FIELD, pfields = pfields rd, pfield = [c]\<rparr>"
    have s1: "process_line rd0 (cur @ [c]) = Inr ?rd1"
      using assms c
      by (cases rd)
        (auto simp add: process_line_append parse_process_char_def start_field_def
          parse_add_char_def dialect_defs)
    have p: "process_line rd0 ((cur @ [c]) @ g) = Inr (?rd1\<lparr>pfield := pfield ?rd1 @ g\<rparr>)"
        "\<forall>t. split_lines (cur @ [c]) (g @ t) = split_lines ((cur @ [c]) @ g) t"
      using plain_content [OF s1 _ g] by simp_all
    have "process_line rd0 (cur @ f) = Inr \<lparr>pstate = IN_FIELD, pfields = pfields rd, pfield = f\<rparr>"
      using p(1) Cons by simp
    moreover have "reader_loop (split_lines cur (rfc4180_field f @ t)) rd0 =
          reader_loop (split_lines (cur @ f) t) rd0" for t
      using p(2) c Cons False by (simp add: rfc4180_field_def dialect_defs)
    ultimately show ?thesis by blast
  qed
qed

lemma field_then_delimiter:
  assumes "process_line rd0 cur = Inr rd"
    and "pstate rd = START_FIELD \<or> pstate rd = START_RECORD"
    and "pfield rd = []"
  shows "\<exists>rd0' cur'.
     process_line rd0' cur' =
       Inr \<lparr>pstate = START_FIELD, pfields = pfields rd @ [f], pfield = []\<rparr> \<and>
     (\<forall>t. reader_loop (split_lines cur (rfc4180_field f @ CHR '','' # t)) rd0 =
          reader_loop (split_lines cur' t) rd0')"
proof -
  obtain rd1 cur1 s where b:
    "process_line rd1 cur1 = Inr \<lparr>pstate = s, pfields = pfields rd, pfield = f\<rparr>"
    "s = IN_FIELD \<or> s = QUOTE_IN_QUOTED_FIELD \<or> (f = [] \<and> s = pstate rd)"
    "\<forall>t. reader_loop (split_lines cur (rfc4180_field f @ t)) rd0 =
          reader_loop (split_lines cur1 t) rd1"
    using field_body [OF assms, of f] by blast
  have "process_line rd1 (cur1 @ [CHR '','']) =
       Inr \<lparr>pstate = START_FIELD, pfields = pfields rd @ [f], pfield = []\<rparr>"
    using b(1,2) assms(2)
    by (auto simp add: process_line_append parse_process_char_def start_field_def
        parse_save_field_def dialect_defs)
  moreover have "reader_loop (split_lines cur (rfc4180_field f @ CHR '','' # t)) rd0 =
          reader_loop (split_lines (cur1 @ [CHR '','']) t) rd1" for t
    using b(3) by (simp add: dialect_defs)
  ultimately show ?thesis by blast
qed

lemma field_then_eol:
  assumes "process_line rd0 cur = Inr rd" and "pstate rd = START_FIELD" and "pfield rd = []"
  shows "reader_loop (split_lines cur (rfc4180_field f @ CHR 0x0D # CHR 0x0A # t)) rd0 =
     (case reader_loop (split_lines [] t) parse_reset of
        Inl e \<Rightarrow> Inl e
      | Inr rows \<Rightarrow> Inr ((pfields rd @ [f]) # rows))"
proof -
  obtain rd1 cur1 s where b:
    "process_line rd1 cur1 = Inr \<lparr>pstate = s, pfields = pfields rd, pfield = f\<rparr>"
    "s = IN_FIELD \<or> s = QUOTE_IN_QUOTED_FIELD \<or> (f = [] \<and> s = pstate rd)"
    "\<forall>t. reader_loop (split_lines cur (rfc4180_field f @ t)) rd0 =
          reader_loop (split_lines cur1 t) rd1"
    using field_body [of rd0 cur rd f] assms by blast
  have line: "process_line rd1 (cur1 @ [CHR 0x0D, CHR 0x0A]) =
       Inr \<lparr>pstate = EAT_CRNL, pfields = pfields rd @ [f], pfield = []\<rparr>"
    using b(1,2) assms(2)
    by (auto simp add: process_line_append parse_process_char_def start_field_def
        end_of_record_def parse_save_field_def dialect_defs)
  have "reader_loop (split_lines cur (rfc4180_field f @ CHR 0x0D # CHR 0x0A # t)) rd0 =
      reader_loop (split_lines cur1 (CHR 0x0D # CHR 0x0A # t)) rd1"
    using b(3) by simp
  also have "\<dots> = reader_loop ((cur1 @ [CHR 0x0D, CHR 0x0A]) # split_lines [] t) rd1"
    by (simp add: dialect_defs)
  also have "\<dots> = (case reader_loop (split_lines [] t) parse_reset of
        Inl e \<Rightarrow> Inl e
      | Inr rows \<Rightarrow> Inr ((pfields rd @ [f]) # rows))"
    using line by (simp add: parse_process_char_def cong: sum.case_cong)
  finally show ?thesis .
qed

lemma reader_row:
  "reader_loop (split_lines []
      (rfc4180_field a @ CHR '','' # rfc4180_field b @ CHR '','' # rfc4180_field c @
         CHR 0x0D # CHR 0x0A # t)) parse_reset =
     (case reader_loop (split_lines [] t) parse_reset of
        Inl e \<Rightarrow> Inl e
      | Inr rows \<Rightarrow> Inr ([a, b, c] # rows))"
proof -
  have 0: "process_line parse_reset [] = Inr parse_reset" by simp
  obtain rd1 cur1 where f1:
    "process_line rd1 cur1 = Inr \<lparr>pstate = START_FIELD, pfields = [a], pfield = []\<rparr>"
    "\<forall>t. reader_loop (split_lines [] (rfc4180_field a @ CHR '','' # t)) parse_reset =
          reader_loop (split_lines cur1 t) rd1"
    using field_then_delimiter [OF 0, of a] by (auto simp add: parse_reset_def)
  obtain rd2 cur2 where f2:
    "process_line rd2 cur2 = Inr \<lparr>pstate = START_FIELD, pfields = [a, b], pfield = []\<rparr>"
    "\<forall>t. reader_loop (split_lines cur1 (rfc4180_field b @ CHR '','' # t)) rd1 =
          reader_loop (split_lines cur2 t) rd2"
    using field_then_delimiter [OF f1(1), of b] by auto
  have "reader_loop (split_lines cur2 (rfc4180_field c @ CHR 0x0D # CHR 0x0A # t)) rd2 =
     (case reader_loop (split_lines [] t) parse_reset of
        Inl e \<Rightarrow> Inl e
      | Inr rows \<Rightarrow> Inr ([a, b, c] # rows))"
    using field_then_eol [OF f2(1), of c t] by (simp cong: sum.case_cong)
  then show ?thesis using f1(2) f2(2) by simp
qed

lemma reader_rows:
  "reader_loop (split_lines [] (concat (map rfc4180_row ps))) parse_reset =
     Inr (map dict_to_list ps)"
proof (induction ps)
  case Nil
  show ?case by (simp add: parse_reset_def)
next
  case (Cons p ps)
  have "concat (map rfc4180_row (p # ps)) =
      rfc4180_field (first p) @ CHR '','' # rfc4180_field (last' p) @ CHR '','' #
      rfc4180_field (ticket_number p) @ CHR 0x0D # CHR 0x0A # concat (map rfc4180_row ps)"
    by (simp add: rfc4180_row_def)
  then show ?case using Cons.IH
    by (simp only: reader_row) (simp add: dict_to_list_def)
qed

lemma csv_reader_csv_text: "csv_reader (csv_text ps) = Inr (fieldnames # map dict_to_list ps)"
proof -
  have "csv_text ps =
      rfc4180_field ''first'' @ CHR '','' # rfc4180_field ''last'' @ CHR '','' #
      rfc4180_field ''ticket_number'' @ CHR 0x0D # CHR 0x0A # concat (map rfc4180_row ps)"
    by (simp add: csv_text_def rfc4180_field_def needs_quoting_def)
  then show ?thesis
    unfolding csv_reader_def
    by (simp only: reader_row reader_rows) (simp add: fieldnames_def)
qed

lemma participant_of_row_fieldnames:
  "participant_of_row fieldnames (dict_to_list p) = Inr p"
  by (simp add: participant_of_row_def fieldnames_def dict_to_list_def)

lemma participants_of_rows_fieldnames:
  "participants_of_rows fieldnames (map dict_to_list ps) = Inr ps"
proof (induction ps)
  case Nil
  show ?case by simp
next
  case (Cons p ps)
  have "dict_to_list p \<noteq> []" by (simp add: dict_to_list_def)
  then show ?case using Cons.IH by (simp add: participant_of_row_fieldnames)
qed

lemma read_csv_csv_text: "read_csv (csv_text ps) = Inr ps"
  by (simp add: read_csv_def csv_reader_csv_text participants_of_rows_fieldnames)


lemma files_write_csv_text:
  "files (write_csv filename participants w) filename = Some (csv_text participants)"
  by (simp add: files_write_csv csv_text_def)

text \<open>C3. For every list of participants, the file that \<open>write_csv\<close> writes can be read
  back: the reader returns without error, the records it returns are the participants
  that were written, and writing those records again gives the same file, character for
  character. This holds whether or not a field needs quoting.\<close>

theorem csv_round_trip:
  "\<exists>text ps'. files (write_csv filename participants w) filename = Some text \<and>
     read_csv text = Inr ps' \<and> ps' = participants \<and>
     files (write_csv filename ps' w) filename = Some text"
  by (simp add: files_write_csv_text read_csv_csv_text)

end
